theory Spec2Isabelle
  imports Complex_Main "HOL-Library.Monad_Syntax" "HOL-Library.Multiset" "HOL-Library.Signed_Division"
begin

section \<open>The data model of main.cc\<close>

text \<open>
  The program works on four global arrays of fixed size:
  \<^verbatim>\<open>
  #define N 729
  #define reps 100
  double a[N][N], b[N][N], c[N];
  int jmax[N];
  \<close>
  An array is a function on its indices; an access checks its index against the bound
  \<open>N\<close> and has no result (\<open>None\<close>) outside it, where the C program has undefined
  behaviour. The values of type \<open>int\<close> that occur stay far below \<open>2^31\<close> for indices
  within the arrays, so they are mathematical integers.
\<close>

definition N :: int where
  "N = 729"

definition reps :: int where
  "reps = 100"

record 'd state =
  a :: "int \<times> int \<Rightarrow> 'd"
  b :: "int \<times> int \<Rightarrow> 'd"
  c :: "int \<Rightarrow> 'd"
  jmax :: "int \<Rightarrow> int"

text \<open>
  The arithmetic of type \<open>double\<close> is a parameter of every function: the operations
  \<open>+\<close>, \<open>*\<close>, \<open>/\<close>, \<open>cos\<close> and \<open>log\<close> of the C program on a type \<open>'d\<close> of
  floating-point values, and the rounding \<open>rnd\<close> that gives the \<open>double\<close> of a decimal
  literal or of an \<open>int\<close>. Nothing is assumed of them: what is proved for every \<open>'d fops\<close>
  holds of IEEE arithmetic, where addition is not associative and a quotient is rounded.
  Where a statement needs a property of the arithmetic, the property is a hypothesis of
  the statement.
\<close>

record 'd fops =
  fadd :: "'d \<Rightarrow> 'd \<Rightarrow> 'd"
  fmul :: "'d \<Rightarrow> 'd \<Rightarrow> 'd"
  fdiv :: "'d \<Rightarrow> 'd \<Rightarrow> 'd"
  fcos :: "'d \<Rightarrow> 'd"
  flog :: "'d \<Rightarrow> 'd"
  rnd :: "real \<Rightarrow> 'd"

text \<open>
  One arithmetic to compute examples with: the operations on the real numbers, without
  rounding. It is not the arithmetic of the program.
\<close>

definition real_ops :: "real fops" where
  "real_ops = \<lparr>fadd = (+), fmul = (*), fdiv = (/), fcos = cos, flog = ln, rnd = (\<lambda>x. x)\<rparr>"

definition in_bounds :: "int \<Rightarrow> bool" where
  "in_bounds i \<longleftrightarrow> 0 \<le> i \<and> i < N"

definition rd1 :: "(int \<Rightarrow> 'x) \<Rightarrow> int \<Rightarrow> 'x option" where
  "rd1 m i = (if in_bounds i then Some (m i) else None)"

definition wr1 :: "(int \<Rightarrow> 'x) \<Rightarrow> int \<Rightarrow> 'x \<Rightarrow> (int \<Rightarrow> 'x) option" where
  "wr1 m i v = (if in_bounds i then Some (m(i := v)) else None)"

definition rd2 :: "(int \<times> int \<Rightarrow> 'x) \<Rightarrow> int \<Rightarrow> int \<Rightarrow> 'x option" where
  "rd2 m i j = (if in_bounds i \<and> in_bounds j then Some (m (i, j)) else None)"

definition wr2 :: "(int \<times> int \<Rightarrow> 'x) \<Rightarrow> int \<Rightarrow> int \<Rightarrow> 'x \<Rightarrow> (int \<times> int \<Rightarrow> 'x) option" where
  "wr2 m i j v = (if in_bounds i \<and> in_bounds j then Some (m((i, j) := v)) else None)"

section \<open>Loops\<close>

text \<open>
  \<^verbatim>\<open>for (i = lo; i < hi; i++) body\<close> and \<^verbatim>\<open>for (j = hi; j > lo; j--) body\<close>,
  the body a function of the loop variable and the state that may fail.
\<close>

function for_up :: "int \<Rightarrow> int \<Rightarrow> (int \<Rightarrow> 's \<Rightarrow> 's option) \<Rightarrow> 's \<Rightarrow> 's option" where
  "for_up i hi body s =
     (if i < hi then
        (case body i s of None \<Rightarrow> None | Some s' \<Rightarrow> for_up (i + 1) hi body s')
      else Some s)"
  by pat_completeness auto
termination
  by (relation "measure (\<lambda>(i, hi, body, s). nat (hi - i))") auto

declare for_up.simps [simp del]

function for_down :: "int \<Rightarrow> int \<Rightarrow> (int \<Rightarrow> 's \<Rightarrow> 's option) \<Rightarrow> 's \<Rightarrow> 's option" where
  "for_down j lo body s =
     (if j > lo then
        (case body j s of None \<Rightarrow> None | Some s' \<Rightarrow> for_down (j - 1) lo body s')
      else Some s)"
  by pat_completeness auto
termination
  by (relation "measure (\<lambda>(j, lo, body, s). nat (j - lo))") auto

declare for_down.simps [simp del]

section \<open>Kernel A: the loop nest of loop1chunk\<close>

text \<open>
  \<^verbatim>\<open>
  void loop1chunk(int lo, int hi) {
    int i,j;
    #pragma omp parallel for schedule(runtime)
    for (i=lo; i<hi; i++){
      for (j=N-1; j>i; j--){
        a[i][j] += cos(b[i][j]);
      }
    }
  }
  \<close>
  \<open>loop1_body\<close> is the assignment and \<open>loop1_row\<close> one iteration of the outer loop,
  run without interruption with a counter \<open>j\<close> of its own. \<open>loop1chunk_seq\<close> is the loop
  nest without the directive: the iterations in the order of the index, as a team of one
  thread runs them. The function \<open>loop1chunk\<close> of the program, with the parallel region,
  is defined below, after the memory that the threads share.
\<close>

definition loop1_body :: "'d fops \<Rightarrow> int \<Rightarrow> int \<Rightarrow> 'd state \<Rightarrow> 'd state option" where
  "loop1_body ops i j s = do {
     x \<leftarrow> rd2 (a s) i j;
     y \<leftarrow> rd2 (b s) i j;
     a' \<leftarrow> wr2 (a s) i j (fadd ops x (fcos ops y));
     Some (s\<lparr>a := a'\<rparr>)
   }"

definition loop1_row :: "'d fops \<Rightarrow> int \<Rightarrow> 'd state \<Rightarrow> 'd state option" where
  "loop1_row ops i s = for_down (N - 1) i (loop1_body ops i) s"

definition loop1chunk_seq :: "'d fops \<Rightarrow> int \<Rightarrow> int \<Rightarrow> 'd state \<Rightarrow> 'd state option" where
  "loop1chunk_seq ops lo hi s = for_up lo hi (loop1_row ops) s"

section \<open>Kernel B: the loop nest of loop2chunk\<close>

text \<open>
  \<^verbatim>\<open>
  void loop2chunk(int lo, int hi) {
    int i,j,k;
    double rN2;
    rN2 = 1.0 / (double) (N*N);
    #pragma omp parallel for schedule(runtime)
    for (i=lo; i<hi; i++){
      for (j=0; j < jmax[i]; j++){
        for (k=0; k<j; k++){
          c[i] += (k+1) * log (b[i][j]) * rN2;
        }
      }
    }
  }
  \<close>
  The loop over \<open>j\<close> reads its bound \<open>jmax[i]\<close> before every iteration. As for
  Kernel A, \<open>loop2_row\<close> is one iteration of the outer loop with counters of its own and
  \<open>loop2chunk_seq\<close> the loop nest without the directive; \<open>loop2chunk\<close> is defined below.
\<close>

definition loop2_body :: "'d fops \<Rightarrow> 'd \<Rightarrow> int \<Rightarrow> int \<Rightarrow> int \<Rightarrow> 'd state \<Rightarrow> 'd state option" where
  "loop2_body ops rN2 i j k s = do {
     x \<leftarrow> rd1 (c s) i;
     y \<leftarrow> rd2 (b s) i j;
     c' \<leftarrow> wr1 (c s) i (fadd ops x (fmul ops (fmul ops (rnd ops (of_int (k + 1))) (flog ops y)) rN2));
     Some (s\<lparr>c := c'\<rparr>)
   }"

function loop2_j :: "'d fops \<Rightarrow> 'd \<Rightarrow> int \<Rightarrow> int \<Rightarrow> 'd state \<Rightarrow> 'd state option" where
  "loop2_j ops rN2 i j s =
     (case rd1 (jmax s) i of
        None \<Rightarrow> None
      | Some m \<Rightarrow>
          if j < m then
            (case for_up 0 j (loop2_body ops rN2 i j) s of
               None \<Rightarrow> None
             | Some s' \<Rightarrow> loop2_j ops rN2 i (j + 1) s')
          else Some s)"
  by pat_completeness auto
termination
proof (relation "measure (\<lambda>(ops, rN2, i, j, s). nat (jmax s i - j))")
  show "wf (measure (\<lambda>(ops :: 'd fops, rN2 :: 'd, i, j, s :: 'd state). nat (jmax s i - j)))"
    by simp
next
  fix ops :: "'d fops" and rN2 :: 'd and i j m :: int and s s' :: "'d state"
  assume m: "rd1 (jmax s) i = Some m" and lt: "j < m"
    and run: "for_up 0 j (loop2_body ops rN2 i j) s = Some s'"
  have keep: "for_up k j (loop2_body ops rN2 i j) t = Some t' \<Longrightarrow> jmax t' = jmax t" for k t t'
  proof (induction k j "loop2_body ops rN2 i j" t rule: for_up.induct)
    case (1 k hi t)
    show ?case
    proof (cases "k < hi")
      case True
      with "1.prems" obtain u where u: "loop2_body ops rN2 i hi k t = Some u"
        and rest: "for_up (k + 1) hi (loop2_body ops rN2 i hi) u = Some t'"
        by (auto simp: for_up.simps [of k hi] split: option.splits)
      from u have "jmax u = jmax t"
        by (auto simp: loop2_body_def rd1_def rd2_def wr1_def split: if_splits Option.bind_splits)
      with "1.hyps" [OF True u rest] show ?thesis by simp
    next
      case False
      with "1.prems" show ?thesis by (simp add: for_up.simps [of k hi])
    qed
  qed
  from m have "jmax s i = m"
    by (simp add: rd1_def split: if_splits)
  with keep [OF run] lt
  show "((ops, rN2, i, j + 1, s'), (ops, rN2, i, j, s)) \<in> measure (\<lambda>(ops, rN2, i, j, s). nat (jmax s i - j))"
    by simp
qed

declare loop2_j.simps [simp del]

definition loop2_row :: "'d fops \<Rightarrow> 'd \<Rightarrow> int \<Rightarrow> 'd state \<Rightarrow> 'd state option" where
  "loop2_row ops rN2 i s = loop2_j ops rN2 i 0 s"

text \<open>The value of the local variable \<open>rN2\<close>, assigned once before the loops.\<close>

definition loop2_rN2 :: "'d fops \<Rightarrow> 'd" where
  "loop2_rN2 ops = fdiv ops (rnd ops 1.0) (rnd ops (of_int (N * N)))"

definition loop2chunk_seq :: "'d fops \<Rightarrow> int \<Rightarrow> int \<Rightarrow> 'd state \<Rightarrow> 'd state option" where
  "loop2chunk_seq ops lo hi s = for_up lo hi (loop2_row ops (loop2_rN2 ops)) s"

section \<open>Initialisation: init1 and init2\<close>

text \<open>
  \<^verbatim>\<open>
  void init1(void){
    for (i=0; i<N; i++){
      for (j=0; j<N; j++){
        a[i][j] = 0.0;
        b[i][j] = 3.142*(i+j);
      }
    }
  }
  \<close>
\<close>

definition init1_body :: "'d fops \<Rightarrow> int \<Rightarrow> int \<Rightarrow> 'd state \<Rightarrow> 'd state option" where
  "init1_body ops i j s = do {
     a' \<leftarrow> wr2 (a s) i j (rnd ops 0.0);
     b' \<leftarrow> wr2 (b s) i j (fmul ops (rnd ops 3.142) (rnd ops (of_int (i + j))));
     Some (s\<lparr>a := a', b := b'\<rparr>)
   }"

definition init1 :: "'d fops \<Rightarrow> 'd state \<Rightarrow> 'd state option" where
  "init1 ops s = for_up 0 N (\<lambda>i. for_up 0 N (init1_body ops i)) s"

text \<open>
  \<^verbatim>\<open>
  void init2(void){
    for (i=0; i<N; i++){
      expr =  i%( 3*(i/30) + 1);
      if ( expr == 0) { jmax[i] = N; }
      else { jmax[i] = 1; }
      c[i] = 0.0;
    }
    for (i=0; i<N; i++){
      for (j=0; j<N; j++){
        b[i][j] = (double) (i*j+1) / (double) (N*N);
      }
    }
  }
  \<close>
  The division and the remainder of C truncate towards zero (\<open>sdiv\<close>, \<open>smod\<close>); a
  remainder by zero is undefined behaviour and has no result.
\<close>

definition jmax_divisor :: "int \<Rightarrow> int" where
  "jmax_divisor i = 3 * (i sdiv 30) + 1"

definition c_rem :: "int \<Rightarrow> int \<Rightarrow> int option" where
  "c_rem x y = (if y = 0 then None else Some (x smod y))"

definition init2_row :: "'d fops \<Rightarrow> int \<Rightarrow> 'd state \<Rightarrow> 'd state option" where
  "init2_row ops i s = do {
     expr \<leftarrow> c_rem i (jmax_divisor i);
     jm \<leftarrow> (if expr = 0 then wr1 (jmax s) i N else wr1 (jmax s) i 1);
     c' \<leftarrow> wr1 (c s) i (rnd ops 0.0);
     Some (s\<lparr>c := c', jmax := jm\<rparr>)
   }"

definition init2_body :: "'d fops \<Rightarrow> int \<Rightarrow> int \<Rightarrow> 'd state \<Rightarrow> 'd state option" where
  "init2_body ops i j s = do {
     b' \<leftarrow> wr2 (b s) i j (fdiv ops (rnd ops (of_int (i * j + 1))) (rnd ops (of_int (N * N))));
     Some (s\<lparr>b := b'\<rparr>)
   }"

definition init2 :: "'d fops \<Rightarrow> 'd state \<Rightarrow> 'd state option" where
  "init2 ops s = do {
     s1 \<leftarrow> for_up 0 N (init2_row ops) s;
     for_up 0 N (\<lambda>i. for_up 0 N (init2_body ops i)) s1
   }"

text \<open>
  The shape of \<open>jmax\<close> in the words of the specification, with \<open>div\<close> and \<open>mod\<close> of HOL,
  which round down.
\<close>

definition jmax_shape :: "int \<Rightarrow> int" where
  "jmax_shape i = (if i mod (3 * (i div 30) + 1) = 0 then N else 1)"

section \<open>Checksums: valid1 and valid2\<close>

text \<open>
  \<^verbatim>\<open>
  suma= 0.0;
  for (i=0; i<N; i++){ for (j=0; j<N; j++){ suma += a[i][j]; } }
  printf("Loop 1 check: Sum of a is %lf\n", suma);

  sumc= 0.0;
  for (i=0; i<N; i++){ sumc += c[i]; }
  printf("Loop 2 check: Sum of c is %f\n", sumc);
  \<close>
  The result of each function is the number it prints.
\<close>

definition valid1 :: "'d fops \<Rightarrow> 'd state \<Rightarrow> 'd option" where
  "valid1 ops s =
     for_up 0 N (\<lambda>i. for_up 0 N (\<lambda>j suma. do { x \<leftarrow> rd2 (a s) i j; Some (fadd ops suma x) }))
       (rnd ops 0.0)"

definition valid2 :: "'d fops \<Rightarrow> 'd state \<Rightarrow> 'd option" where
  "valid2 ops s =
     for_up 0 N (\<lambda>i sumc. do { x \<leftarrow> rd1 (c s) i; Some (fadd ops sumc x) }) (rnd ops 0.0)"

section \<open>Chunks run one after the other\<close>

text \<open>
  \<open>run_rows\<close> runs iterations of an outer loop, each without interruption, in the order
  of a list of indices. The specification describes a schedule as a partition of the
  range into chunks that are processed in any order: \<open>run_chunks\<close> runs a list of chunks
  \<open>(l, h)\<close>, each the loop from \<open>l\<close> to \<open>h\<close>, one after the other in the order of the
  list, and a partition of \<open>[lo, hi)\<close> is a list of chunks in which every index of the
  range occurs once, in any order. \<open>loop1chunk_serial\<close> and \<open>loop2chunk_serial\<close> are the
  kernels in this description, in which no two iterations run at the same time; they
  are what the functions of the program, defined below, are compared with.
\<close>

primrec run_rows :: "(int \<Rightarrow> 's \<Rightarrow> 's option) \<Rightarrow> int list \<Rightarrow> 's \<Rightarrow> 's option" where
  "run_rows row [] s = Some s"
| "run_rows row (i # is) s = (case row i s of None \<Rightarrow> None | Some s' \<Rightarrow> run_rows row is s')"

primrec run_chunks :: "(int \<Rightarrow> 's \<Rightarrow> 's option) \<Rightarrow> (int \<times> int) list \<Rightarrow> 's \<Rightarrow> 's option" where
  "run_chunks row [] s = Some s"
| "run_chunks row (ch # cs) s =
     (case for_up (fst ch) (snd ch) row s of None \<Rightarrow> None | Some s' \<Rightarrow> run_chunks row cs s')"

definition chunk_rows :: "(int \<times> int) list \<Rightarrow> int list" where
  "chunk_rows cs = concat (map (\<lambda>ch. [fst ch..snd ch - 1]) cs)"

definition is_partition :: "(int \<times> int) list \<Rightarrow> int \<Rightarrow> int \<Rightarrow> bool" where
  "is_partition cs lo hi \<longleftrightarrow> mset (chunk_rows cs) = mset [lo..hi - 1]"

definition loop1chunk_serial :: "'d fops \<Rightarrow> (int \<times> int) list \<Rightarrow> 'd state \<Rightarrow> 'd state option" where
  "loop1chunk_serial ops cs s = run_chunks (loop1_row ops) cs s"

definition loop2chunk_serial :: "'d fops \<Rightarrow> (int \<times> int) list \<Rightarrow> 'd state \<Rightarrow> 'd state option" where
  "loop2chunk_serial ops cs s = run_chunks (loop2_row ops (loop2_rN2 ops)) cs s"

text \<open>Repeated calls of a kernel, each call with a list of chunks of its own.\<close>

primrec run_calls :: "('c \<Rightarrow> 's \<Rightarrow> 's option) \<Rightarrow> 'c list \<Rightarrow> 's \<Rightarrow> 's option" where
  "run_calls call [] s = Some s"
| "run_calls call (cs # css) s =
     (case call cs s of None \<Rightarrow> None | Some s' \<Rightarrow> run_calls call css s')"

section \<open>Memory locations and write sets\<close>

text \<open>
  A location is an element of one of the four arrays. A piece of the program writes a
  location when, for some arithmetic and some state from which it returns, the location's
  value after it is not the value before.
\<close>

datatype loc = LocA int int | LocB int int | LocC int | LocJmax int

datatype 'd val = DoubleVal 'd | IntVal int

fun read_loc :: "'d state \<Rightarrow> loc \<Rightarrow> 'd val" where
  "read_loc s (LocA i j) = DoubleVal (a s (i, j))"
| "read_loc s (LocB i j) = DoubleVal (b s (i, j))"
| "read_loc s (LocC i) = DoubleVal (c s i)"
| "read_loc s (LocJmax i) = IntVal (jmax s i)"

definition writes :: "('d fops \<Rightarrow> 'd state \<Rightarrow> 'd state option) \<Rightarrow> loc set" where
  "writes p = {l. \<exists>ops s s'. p ops s = Some s' \<and> read_loc s' l \<noteq> read_loc s l}"

section \<open>The loop counters as shared memory\<close>

text \<open>
  The variables \<open>j\<close> and \<open>k\<close> of the kernels are declared in the function, before the
  parallel region, and no \<open>private\<close> clause names them:
  \<^verbatim>\<open>
  void loop1chunk(int lo, int hi) {
    int i,j;
    #pragma omp parallel for schedule(runtime)
    for (i=lo; i<hi; i++){
      for (j=N-1; j>i; j--){ ... }
  \<close>
  In C and C++ such a variable is shared by the threads of the region; only \<open>i\<close>, the
  variable of the parallel loop itself, is private to each of them. The memory that the
  iterations of the outer loop work on is therefore the arrays and the two counters, and
  \<open>loop1_row_mem\<close> and \<open>loop2_row_mem\<close> are one iteration of the outer loop on this
  memory: the statements of \<open>loop1_row\<close> and \<open>loop2_row\<close> with the counters as cells of
  the memory.
\<close>

record 'd mem =
  arrays :: "'d state"
  var_j :: int
  var_k :: int

function loop1_j_mem :: "'d fops \<Rightarrow> int \<Rightarrow> 'd mem \<Rightarrow> 'd mem option" where
  "loop1_j_mem ops i m =
     (if var_j m > i then
        (case loop1_body ops i (var_j m) (arrays m) of
           None \<Rightarrow> None
         | Some s' \<Rightarrow> loop1_j_mem ops i (m\<lparr>arrays := s', var_j := var_j m - 1\<rparr>))
      else Some m)"
  by pat_completeness auto
termination
  by (relation "measure (\<lambda>(ops, i, m). nat (var_j m - i))") auto

declare loop1_j_mem.simps [simp del]

definition loop1_row_mem :: "'d fops \<Rightarrow> int \<Rightarrow> 'd mem \<Rightarrow> 'd mem option" where
  "loop1_row_mem ops i m = loop1_j_mem ops i (m\<lparr>var_j := N - 1\<rparr>)"

function loop2_k_mem :: "'d fops \<Rightarrow> 'd \<Rightarrow> int \<Rightarrow> 'd mem \<Rightarrow> 'd mem option" where
  "loop2_k_mem ops rN2 i m =
     (if var_k m < var_j m then
        (case loop2_body ops rN2 i (var_j m) (var_k m) (arrays m) of
           None \<Rightarrow> None
         | Some s' \<Rightarrow> loop2_k_mem ops rN2 i (m\<lparr>arrays := s', var_k := var_k m + 1\<rparr>))
      else Some m)"
  by pat_completeness auto
termination
  by (relation "measure (\<lambda>(ops, rN2, i, m). nat (var_j m - var_k m))") auto

declare loop2_k_mem.simps [simp del]

function loop2_j_mem :: "'d fops \<Rightarrow> 'd \<Rightarrow> int \<Rightarrow> 'd mem \<Rightarrow> 'd mem option" where
  "loop2_j_mem ops rN2 i m =
     (case rd1 (jmax (arrays m)) i of
        None \<Rightarrow> None
      | Some bound \<Rightarrow>
          if var_j m < bound then
            (case loop2_k_mem ops rN2 i (m\<lparr>var_k := 0\<rparr>) of
               None \<Rightarrow> None
             | Some m' \<Rightarrow> loop2_j_mem ops rN2 i (m'\<lparr>var_j := var_j m' + 1\<rparr>))
          else Some m)"
  by pat_completeness auto
termination
proof (relation "measure (\<lambda>(ops, rN2, i, m). nat (jmax (arrays m) i - var_j m))")
  show "wf (measure (\<lambda>(ops :: 'd fops, rN2 :: 'd, i, m :: 'd mem). nat (jmax (arrays m) i - var_j m)))"
    by simp
next
  fix ops :: "'d fops" and rN2 :: 'd and i bound :: int and m m' :: "'d mem"
  assume bound: "rd1 (jmax (arrays m)) i = Some bound" and lt: "var_j m < bound"
    and run: "loop2_k_mem ops rN2 i (m\<lparr>var_k := 0\<rparr>) = Some m'"
  have keep: "loop2_k_mem ops rN2 i t = Some t' \<Longrightarrow>
      var_j t' = var_j t \<and> jmax (arrays t') = jmax (arrays t)" for t t'
  proof (induction ops rN2 i t rule: loop2_k_mem.induct)
    case (1 ops rN2 i t)
    show ?case
    proof (cases "var_k t < var_j t")
      case True
      with "1.prems" obtain s' where s': "loop2_body ops rN2 i (var_j t) (var_k t) (arrays t) = Some s'"
        and rest: "loop2_k_mem ops rN2 i (t\<lparr>arrays := s', var_k := var_k t + 1\<rparr>) = Some t'"
        by (auto simp: loop2_k_mem.simps [of ops rN2 i t] split: option.splits)
      from s' have "jmax s' = jmax (arrays t)"
        by (auto simp: loop2_body_def rd1_def rd2_def wr1_def split: if_splits Option.bind_splits)
      with "1.IH" [OF True s' rest] show ?thesis by simp
    next
      case False
      with "1.prems" show ?thesis by (simp add: loop2_k_mem.simps [of ops rN2 i t])
    qed
  qed
  from bound have "jmax (arrays m) i = bound"
    by (simp add: rd1_def split: if_splits)
  with keep [OF run] lt
  show "((ops, rN2, i, m'\<lparr>var_j := var_j m' + 1\<rparr>), (ops, rN2, i, m)) \<in>
      measure (\<lambda>(ops, rN2, i, m). nat (jmax (arrays m) i - var_j m))"
    by simp
qed

declare loop2_j_mem.simps [simp del]

definition loop2_row_mem :: "'d fops \<Rightarrow> 'd \<Rightarrow> int \<Rightarrow> 'd mem \<Rightarrow> 'd mem option" where
  "loop2_row_mem ops rN2 i m = loop2_j_mem ops rN2 i (m\<lparr>var_j := 0\<rparr>)"

text \<open>The locations of this memory and, as for the arrays, what a piece of the program writes.\<close>

datatype mloc = Array loc | VarJ | VarK

fun read_mloc :: "'d mem \<Rightarrow> mloc \<Rightarrow> 'd val" where
  "read_mloc m (Array l) = read_loc (arrays m) l"
| "read_mloc m VarJ = IntVal (var_j m)"
| "read_mloc m VarK = IntVal (var_k m)"

definition writes_mem :: "('d fops \<Rightarrow> 'd mem \<Rightarrow> 'd mem option) \<Rightarrow> mloc set" where
  "writes_mem p = {l. \<exists>ops m m'. p ops m = Some m' \<and> read_mloc m' l \<noteq> read_mloc m l}"

section \<open>The parallel region\<close>

text \<open>
  \<^verbatim>\<open>#pragma omp parallel for schedule(runtime)\<close> hands the iterations of the outer loop
  to the threads of a team. Every thread has an \<open>i\<close> of its own; the counters \<open>j\<close> and
  \<open>k\<close> and the arrays are one memory for all of them. A thread is the list of the outer
  indices that it has still to run, the first of them the one it is in, and the place
  within that iteration where it stands. A step of a thread is one statement or one test
  of the loop nest, on the shared memory; a thread with no index left does nothing.

  For Kernel A the places are: before \<^verbatim>\<open>j=N-1\<close>; before the test \<^verbatim>\<open>j>i\<close>, which leads
  into the body or ends the iteration; before \<^verbatim>\<open>a[i][j] += cos(b[i][j])\<close>; and before
  \<^verbatim>\<open>j--\<close>.
\<close>

datatype pc1 = At_j_init | At_j_test | At_body | At_j_decr

fun loop1_step :: "'d fops \<Rightarrow> int list \<times> pc1 \<Rightarrow> 'd mem \<Rightarrow> ((int list \<times> pc1) \<times> 'd mem) option" where
  "loop1_step ops ([], p) m = Some (([], p), m)"
| "loop1_step ops (i # rows, At_j_init) m = Some ((i # rows, At_j_test), m\<lparr>var_j := N - 1\<rparr>)"
| "loop1_step ops (i # rows, At_j_test) m =
     (if var_j m > i then Some ((i # rows, At_body), m) else Some ((rows, At_j_init), m))"
| "loop1_step ops (i # rows, At_body) m =
     (case loop1_body ops i (var_j m) (arrays m) of
        None \<Rightarrow> None
      | Some s' \<Rightarrow> Some ((i # rows, At_j_decr), m\<lparr>arrays := s'\<rparr>))"
| "loop1_step ops (i # rows, At_j_decr) m = Some ((i # rows, At_j_test), m\<lparr>var_j := var_j m - 1\<rparr>)"

text \<open>
  For Kernel B: before \<^verbatim>\<open>j=0\<close>; before the test \<^verbatim>\<open>j < jmax[i]\<close>; before \<^verbatim>\<open>k=0\<close>; before
  the test \<^verbatim>\<open>k<j\<close>; before \<^verbatim>\<open>c[i] += (k+1) * log (b[i][j]) * rN2\<close>; before \<^verbatim>\<open>k++\<close>; and
  before \<^verbatim>\<open>j++\<close>.
\<close>

datatype pc2 = At2_j_init | At2_j_test | At2_k_init | At2_k_test | At2_body | At2_k_incr | At2_j_incr

fun loop2_step :: "'d fops \<Rightarrow> 'd \<Rightarrow> int list \<times> pc2 \<Rightarrow> 'd mem \<Rightarrow> ((int list \<times> pc2) \<times> 'd mem) option" where
  "loop2_step ops rN2 ([], p) m = Some (([], p), m)"
| "loop2_step ops rN2 (i # rows, At2_j_init) m = Some ((i # rows, At2_j_test), m\<lparr>var_j := 0\<rparr>)"
| "loop2_step ops rN2 (i # rows, At2_j_test) m =
     (case rd1 (jmax (arrays m)) i of
        None \<Rightarrow> None
      | Some bound \<Rightarrow>
          if var_j m < bound then Some ((i # rows, At2_k_init), m) else Some ((rows, At2_j_init), m))"
| "loop2_step ops rN2 (i # rows, At2_k_init) m = Some ((i # rows, At2_k_test), m\<lparr>var_k := 0\<rparr>)"
| "loop2_step ops rN2 (i # rows, At2_k_test) m =
     (if var_k m < var_j m then Some ((i # rows, At2_body), m) else Some ((i # rows, At2_j_incr), m))"
| "loop2_step ops rN2 (i # rows, At2_body) m =
     (case loop2_body ops rN2 i (var_j m) (var_k m) (arrays m) of
        None \<Rightarrow> None
      | Some s' \<Rightarrow> Some ((i # rows, At2_k_incr), m\<lparr>arrays := s'\<rparr>))"
| "loop2_step ops rN2 (i # rows, At2_k_incr) m = Some ((i # rows, At2_k_test), m\<lparr>var_k := var_k m + 1\<rparr>)"
| "loop2_step ops rN2 (i # rows, At2_j_incr) m = Some ((i # rows, At2_j_test), m\<lparr>var_j := var_j m + 1\<rparr>)"

text \<open>
  An interleaving is a list of thread numbers: \<open>run_threads\<close> lets the threads step in
  its order, one step for each number (a number that is no thread of the team is passed
  over). The steps are taken one at a time on one memory; the threads of the program,
  whose accesses to \<open>j\<close> and \<open>k\<close> nothing orders, can do everything that this allows.
\<close>

fun run_threads :: "('t \<Rightarrow> 'm \<Rightarrow> ('t \<times> 'm) option) \<Rightarrow> nat list \<Rightarrow> 't list \<Rightarrow> 'm \<Rightarrow> ('t list \<times> 'm) option" where
  "run_threads step [] ts m = Some (ts, m)"
| "run_threads step (n # sched) ts m =
     (if n < length ts then
        (case step (ts ! n) m of
           None \<Rightarrow> None
         | Some (t', m') \<Rightarrow> run_threads step sched (ts[n := t']) m')
      else run_threads step sched ts m)"

text \<open>
  \<^verbatim>\<open>schedule(runtime)\<close> leaves to the environment which thread runs which index.
  \<open>distribute n asg lo hi\<close> is the work of a team of \<open>n\<close> threads (of one thread for
  \<open>n = 0\<close>): thread \<open>t\<close> has the indices \<open>i\<close> of \<open>[lo, hi)\<close> with \<open>asg i mod n = t\<close>, in
  increasing order. With \<^verbatim>\<open>OMP_SCHEDULE="static,1"\<close> and \<open>lo = 0\<close>, \<open>asg i\<close> is \<open>i\<close>.
\<close>

definition distribute :: "nat \<Rightarrow> (int \<Rightarrow> nat) \<Rightarrow> int \<Rightarrow> int \<Rightarrow> int list list" where
  "distribute n asg lo hi =
     map (\<lambda>t. filter (\<lambda>i. asg i mod max 1 n = t) [lo..hi - 1]) [0..<max 1 n]"

text \<open>
  \<open>loop1chunk\<close> and \<open>loop2chunk\<close>, the two functions of the program: the parallel loop
  run by \<open>n\<close> threads with the assignment \<open>asg\<close> under the interleaving \<open>sched\<close>. The
  function returns the arrays when every thread has run all its iterations; it has no
  result when an access is outside an array or the interleaving ends before the threads
  do. The counters are not initialised in the program; no thread reads \<open>j\<close> or \<open>k\<close>
  before it has assigned it, so the 0 that they hold here at the start is never read.
\<close>

definition loop1chunk ::
  "'d fops \<Rightarrow> nat \<Rightarrow> (int \<Rightarrow> nat) \<Rightarrow> nat list \<Rightarrow> int \<Rightarrow> int \<Rightarrow> 'd state \<Rightarrow> 'd state option" where
  "loop1chunk ops n asg sched lo hi s =
     (case run_threads (loop1_step ops) sched
             (map (\<lambda>rows. (rows, At_j_init)) (distribute n asg lo hi))
             \<lparr>arrays = s, var_j = 0, var_k = 0\<rparr> of
        None \<Rightarrow> None
      | Some (ts, m) \<Rightarrow> if list_all (\<lambda>t. fst t = []) ts then Some (arrays m) else None)"

definition loop2chunk ::
  "'d fops \<Rightarrow> nat \<Rightarrow> (int \<Rightarrow> nat) \<Rightarrow> nat list \<Rightarrow> int \<Rightarrow> int \<Rightarrow> 'd state \<Rightarrow> 'd state option" where
  "loop2chunk ops n asg sched lo hi s =
     (case run_threads (loop2_step ops (loop2_rN2 ops)) sched
             (map (\<lambda>rows. (rows, At2_j_init)) (distribute n asg lo hi))
             \<lparr>arrays = s, var_j = 0, var_k = 0\<rparr> of
        None \<Rightarrow> None
      | Some (ts, m) \<Rightarrow> if list_all (\<lambda>t. fst t = []) ts then Some (arrays m) else None)"


section \<open>Frames\<close>

text \<open>
  Frames: what a run from \<open>s\<close> to \<open>s'\<close> may have changed. \<open>only_a_row i\<close>: nothing but
  row \<open>i\<close> of \<open>a\<close>; \<open>only_c_row i\<close>: nothing but \<open>c[i]\<close>; \<open>keeps_inputs\<close>: neither \<open>b\<close>
  nor \<open>jmax\<close>.
\<close>

definition only_a_row :: "int \<Rightarrow> 'd state \<Rightarrow> 'd state \<Rightarrow> bool" where
  "only_a_row i s s' \<longleftrightarrow>
     b s' = b s \<and> c s' = c s \<and> jmax s' = jmax s \<and> (\<forall>p. fst p \<noteq> i \<longrightarrow> a s' p = a s p)"

definition only_c_row :: "int \<Rightarrow> 'd state \<Rightarrow> 'd state \<Rightarrow> bool" where
  "only_c_row i s s' \<longleftrightarrow>
     a s' = a s \<and> b s' = b s \<and> jmax s' = jmax s \<and> (\<forall>k. k \<noteq> i \<longrightarrow> c s' k = c s k)"

definition keeps_inputs :: "'d state \<Rightarrow> 'd state \<Rightarrow> bool" where
  "keeps_inputs s s' \<longleftrightarrow> b s' = b s \<and> jmax s' = jmax s"

section \<open>What the kernels compute\<close>

text \<open>
  The value that Kernel B leaves in \<open>c[i]\<close>, in the words of its contract: starting
  from \<open>c[i]\<close>, for every \<open>j\<close> from 0 to \<open>jmax[i] - 1\<close> and every \<open>k\<close> from 0 to
  \<open>j - 1\<close>, in this order, the term \<open>(k+1) * log(b[i][j]) * rN2\<close> is added.
\<close>

definition kernel_B_acc :: "'d fops \<Rightarrow> 'd \<Rightarrow> 'd state \<Rightarrow> int \<Rightarrow> 'd \<Rightarrow> 'd" where
  "kernel_B_acc ops rN2 s i x =
     foldl (\<lambda>x (j, k). fadd ops x (fmul ops (fmul ops (rnd ops (of_int (k + 1))) (flog ops (b s (i, j)))) rN2))
       x (concat (map (\<lambda>j. map (Pair j) [0..j - 1]) [0..jmax s i - 1]))"

definition kernel_B_row :: "'d fops \<Rightarrow> 'd \<Rightarrow> 'd state \<Rightarrow> int \<Rightarrow> 'd" where
  "kernel_B_row ops rN2 s i = kernel_B_acc ops rN2 s i (c s i)"

text \<open>
  The states after \<open>n\<close> calls of a kernel on the range \<open>[lo, hi)\<close>: every cell that a call
  updates has been updated \<open>n\<close> times, every other cell is as before.
\<close>

definition kernel_A_calls :: "'d fops \<Rightarrow> int \<Rightarrow> int \<Rightarrow> nat \<Rightarrow> 'd state \<Rightarrow> 'd state" where
  "kernel_A_calls ops lo hi n s =
     s\<lparr>a := \<lambda>p. if lo \<le> fst p \<and> fst p < hi \<and> fst p < snd p \<and> snd p < N
                  then ((\<lambda>x. fadd ops x (fcos ops (b s p))) ^^ n) (a s p) else a s p\<rparr>"

definition kernel_B_calls :: "'d fops \<Rightarrow> int \<Rightarrow> int \<Rightarrow> nat \<Rightarrow> 'd state \<Rightarrow> 'd state" where
  "kernel_B_calls ops lo hi n s =
     s\<lparr>c := \<lambda>i. if lo \<le> i \<and> i < hi
                  then (kernel_B_acc ops (loop2_rN2 ops) s i ^^ n) (c s i)
                  else c s i\<rparr>"

text \<open>The state of a C program at its start: every global array is zero.\<close>

definition zero_state :: "real state" where
  "zero_state = \<lparr>a = (\<lambda>p. 0), b = (\<lambda>p. 0), c = (\<lambda>i. 0), jmax = (\<lambda>i. 0)\<rparr>"

text \<open>A state in which every row of Kernel B has the bound 2 and \<open>b\<close> is \<open>e\<close> everywhere.\<close>

definition test_state :: "real state" where
  "test_state = \<lparr>a = (\<lambda>p. 0), b = (\<lambda>p. exp 1), c = (\<lambda>i. 0), jmax = (\<lambda>i. 2)\<rparr>"

section \<open>Loops as runs over the list of their indices\<close>

lemma for_up_run_rows: "for_up lo hi body s = run_rows body [lo..hi - 1] s"
proof (induction lo hi body s rule: for_up.induct)
  case (1 i hi body s)
  show ?case
  proof (cases "i < hi")
    case True
    then have "[i..hi - 1] = i # [i + 1..hi - 1]"
      by (simp add: upto_rec1)
    with True "1.IH" show ?thesis
      by (simp add: for_up.simps [of i hi] split: option.splits)
  next
    case False
    then show ?thesis by (simp add: for_up.simps [of i hi])
  qed
qed

lemma for_down_run_rows: "for_down j lo body s = run_rows body (rev [lo + 1..j]) s"
proof (induction j lo body s rule: for_down.induct)
  case (1 j lo body s)
  show ?case
  proof (cases "j > lo")
    case True
    then have "[lo + 1..j] = [lo + 1..j - 1] @ [j]"
      by (simp add: upto_rec2)
    with True "1.IH" show ?thesis
      by (simp add: for_down.simps [of j lo] split: option.splits)
  next
    case False
    then show ?thesis by (simp add: for_down.simps [of j lo])
  qed
qed

lemma run_rows_append:
  "run_rows row (xs @ ys) s = (case run_rows row xs s of None \<Rightarrow> None | Some s' \<Rightarrow> run_rows row ys s')"
  by (induction xs arbitrary: s) (auto split: option.splits)

lemma run_chunks_run_rows: "run_chunks row cs s = run_rows row (chunk_rows cs) s"
  by (induction cs arbitrary: s)
    (auto simp: chunk_rows_def run_rows_append for_up_run_rows split: option.splits)

section \<open>Kernel A\<close>

lemma loop1_body_Some:
  "in_bounds i \<Longrightarrow> in_bounds j \<Longrightarrow>
   loop1_body ops i j s = Some (s\<lparr>a := (a s)((i, j) := fadd ops (a s (i, j)) (fcos ops (b s (i, j))))\<rparr>)"
  by (simp add: loop1_body_def rd2_def wr2_def)

lemma run_rows_loop1_body:
  "in_bounds i \<Longrightarrow> \<forall>j\<in>set js. in_bounds j \<Longrightarrow> distinct js \<Longrightarrow>
   run_rows (loop1_body ops i) js s =
     Some (s\<lparr>a := \<lambda>p. if fst p = i \<and> snd p \<in> set js then fadd ops (a s p) (fcos ops (b s p)) else a s p\<rparr>)"
proof (induction js arbitrary: s)
  case Nil
  then show ?case by simp
next
  case (Cons j js)
  let ?s1 = "s\<lparr>a := (a s)((i, j) := fadd ops (a s (i, j)) (fcos ops (b s (i, j))))\<rparr>"
  have "run_rows (loop1_body ops i) (j # js) s = run_rows (loop1_body ops i) js ?s1"
    using Cons.prems by (simp add: loop1_body_Some)
  also have "\<dots> = Some (?s1\<lparr>a := \<lambda>p. if fst p = i \<and> snd p \<in> set js
       then fadd ops (a ?s1 p) (fcos ops (b ?s1 p)) else a ?s1 p\<rparr>)"
    using Cons.prems by (intro Cons.IH) auto
  also have "\<dots> = Some (s\<lparr>a := \<lambda>p. if fst p = i \<and> snd p \<in> set (j # js)
       then fadd ops (a s p) (fcos ops (b s p)) else a s p\<rparr>)"
    using Cons.prems by (auto simp: fun_eq_iff)
  finally show ?case .
qed

lemma loop1_row_closed:
  assumes "in_bounds i"
  shows "loop1_row ops i s =
     Some (s\<lparr>a := \<lambda>p. if fst p = i \<and> i < snd p \<and> snd p < N
                       then fadd ops (a s p) (fcos ops (b s p)) else a s p\<rparr>)"
proof -
  have "loop1_row ops i s = run_rows (loop1_body ops i) (rev [i + 1..N - 1]) s"
    by (simp add: loop1_row_def for_down_run_rows)
  also have "\<dots> = Some (s\<lparr>a := \<lambda>p. if fst p = i \<and> snd p \<in> set (rev [i + 1..N - 1])
       then fadd ops (a s p) (fcos ops (b s p)) else a s p\<rparr>)"
    using assms by (intro run_rows_loop1_body) (auto simp: in_bounds_def)
  also have "(\<lambda>p. if fst p = i \<and> snd p \<in> set (rev [i + 1..N - 1])
       then fadd ops (a s p) (fcos ops (b s p)) else a s p) =
     (\<lambda>p. if fst p = i \<and> i < snd p \<and> snd p < N
       then fadd ops (a s p) (fcos ops (b s p)) else a s p)"
    by (auto simp: fun_eq_iff)
  finally show ?thesis .
qed

lemma run_rows_loop1_row:
  "\<forall>i\<in>set rows. in_bounds i \<Longrightarrow> distinct rows \<Longrightarrow>
   run_rows (loop1_row ops) rows s =
     Some (s\<lparr>a := \<lambda>p. if fst p \<in> set rows \<and> fst p < snd p \<and> snd p < N
                       then fadd ops (a s p) (fcos ops (b s p)) else a s p\<rparr>)"
proof (induction rows arbitrary: s)
  case Nil
  then show ?case by simp
next
  case (Cons i rows)
  let ?s1 = "s\<lparr>a := \<lambda>p. if fst p = i \<and> i < snd p \<and> snd p < N
                       then fadd ops (a s p) (fcos ops (b s p)) else a s p\<rparr>"
  have "run_rows (loop1_row ops) (i # rows) s = run_rows (loop1_row ops) rows ?s1"
    using Cons.prems by (simp add: loop1_row_closed)
  also have "\<dots> = Some (?s1\<lparr>a := \<lambda>p. if fst p \<in> set rows \<and> fst p < snd p \<and> snd p < N
       then fadd ops (a ?s1 p) (fcos ops (b ?s1 p)) else a ?s1 p\<rparr>)"
    using Cons.prems by (intro Cons.IH) auto
  also have "\<dots> = Some (s\<lparr>a := \<lambda>p. if fst p \<in> set (i # rows) \<and> fst p < snd p \<and> snd p < N
       then fadd ops (a s p) (fcos ops (b s p)) else a s p\<rparr>)"
    using Cons.prems by (auto simp: fun_eq_iff)
  finally show ?case .
qed

text \<open>
  The loop nest of Kernel A run by one thread. For \<open>0 \<le> lo \<le> hi \<le> N\<close> it returns, and
  the state after it is the state before it but for \<open>a\<close>: for every row \<open>i\<close> of
  \<open>[lo, hi)\<close> and every column \<open>j\<close> with \<open>i < j \<le> N - 1\<close>, \<open>a[i][j]\<close> is
  \<open>a[i][j] + cos(b[i][j])\<close>; every other element of \<open>a\<close> is as before.
\<close>

lemma loop1chunk_seq_contract:
  "0 \<le> lo \<Longrightarrow> lo \<le> hi \<Longrightarrow> hi \<le> N \<Longrightarrow>
   loop1chunk_seq ops lo hi s =
     Some (s\<lparr>a := \<lambda>(i, j). if lo \<le> i \<and> i < hi \<and> i < j \<and> j \<le> N - 1
                       then fadd ops (a s (i, j)) (fcos ops (b s (i, j))) else a s (i, j)\<rparr>)"
proof -
  assume b: "0 \<le> lo" "lo \<le> hi" "hi \<le> N"
  have "loop1chunk_seq ops lo hi s = run_rows (loop1_row ops) [lo..hi - 1] s"
    by (simp add: loop1chunk_seq_def for_up_run_rows)
  also have "\<dots> = Some (s\<lparr>a := \<lambda>p. if fst p \<in> set [lo..hi - 1] \<and> fst p < snd p \<and> snd p < N
       then fadd ops (a s p) (fcos ops (b s p)) else a s p\<rparr>)"
    using b by (intro run_rows_loop1_row) (auto simp: in_bounds_def)
  also have "(\<lambda>p. if fst p \<in> set [lo..hi - 1] \<and> fst p < snd p \<and> snd p < N
       then fadd ops (a s p) (fcos ops (b s p)) else a s p) =
     (\<lambda>(i, j). if lo \<le> i \<and> i < hi \<and> i < j \<and> j \<le> N - 1
       then fadd ops (a s (i, j)) (fcos ops (b s (i, j))) else a s (i, j))"
    by (auto simp: fun_eq_iff)
  finally show ?thesis .
qed

lemma loop1chunk_seq_contract_example:
  "loop1chunk_seq real_ops 727 729 zero_state = Some (zero_state\<lparr>a := (\<lambda>p. 0)((727, 728) := 1)\<rparr>)"
  using loop1chunk_seq_contract [of 727 729 real_ops zero_state]
  by (auto simp: N_def zero_state_def real_ops_def fun_eq_iff)

section \<open>Kernel B\<close>

lemma loop2_body_Some:
  "in_bounds i \<Longrightarrow> in_bounds j \<Longrightarrow>
   loop2_body ops rN2 i j k s =
     Some (s\<lparr>c := (c s)(i := fadd ops (c s i)
       (fmul ops (fmul ops (rnd ops (of_int (k + 1))) (flog ops (b s (i, j)))) rN2))\<rparr>)"
  by (simp add: loop2_body_def rd1_def rd2_def wr1_def)

lemma run_rows_loop2_body:
  "in_bounds i \<Longrightarrow> in_bounds j \<Longrightarrow>
   run_rows (loop2_body ops rN2 i j) ks s =
     Some (s\<lparr>c := (c s)(i := foldl (\<lambda>x k. fadd ops x
       (fmul ops (fmul ops (rnd ops (of_int (k + 1))) (flog ops (b s (i, j)))) rN2)) (c s i) ks)\<rparr>)"
proof (induction ks arbitrary: s)
  case Nil
  then show ?case by simp
next
  case (Cons k ks)
  let ?t = "\<lambda>bs k. fmul ops (fmul ops (rnd ops (of_int (k + 1))) (flog ops (bs (i, j)))) rN2"
  let ?s1 = "s\<lparr>c := (c s)(i := fadd ops (c s i) (?t (b s) k))\<rparr>"
  have "run_rows (loop2_body ops rN2 i j) (k # ks) s = run_rows (loop2_body ops rN2 i j) ks ?s1"
    using Cons.prems by (simp add: loop2_body_Some)
  also have "\<dots> = Some (?s1\<lparr>c := (c ?s1)(i := foldl (\<lambda>x k. fadd ops x (?t (b ?s1) k)) (c ?s1 i) ks)\<rparr>)"
    using Cons.prems by (intro Cons.IH)
  also have "\<dots> = Some (s\<lparr>c := (c s)(i := foldl (\<lambda>x k. fadd ops x (?t (b s) k)) (c s i) (k # ks))\<rparr>)"
    by simp
  finally show ?case .
qed

lemma loop2_j_closed:
  "in_bounds i \<Longrightarrow> 0 \<le> j \<Longrightarrow> jmax s i \<le> N \<Longrightarrow>
   loop2_j ops rN2 i j s =
     Some (s\<lparr>c := (c s)(i := foldl (\<lambda>x (j, k). fadd ops x
         (fmul ops (fmul ops (rnd ops (of_int (k + 1))) (flog ops (b s (i, j)))) rN2))
       (c s i) (concat (map (\<lambda>j. map (Pair j) [0..j - 1]) [j..jmax s i - 1])))\<rparr>)"
proof (induction ops rN2 i j s rule: loop2_j.induct)
  case (1 ops rN2 i j s)
  let ?F = "\<lambda>bs x (j, k). fadd ops x
         (fmul ops (fmul ops (rnd ops (of_int (k + 1))) (flog ops (bs (i, j)))) rN2)"
  have m: "rd1 (jmax s) i = Some (jmax s i)"
    using "1.prems" by (simp add: rd1_def)
  show ?case
  proof (cases "j < jmax s i")
    case True
    let ?s1 = "s\<lparr>c := (c s)(i := foldl (\<lambda>x k. ?F (b s) x (j, k)) (c s i) [0..j - 1])\<rparr>"
    have inner: "for_up 0 j (loop2_body ops rN2 i j) s = Some ?s1"
      using "1.prems" True by (simp add: for_up_run_rows run_rows_loop2_body in_bounds_def)
    have pair: "foldl (?F (b s)) x (map (Pair j) ks) = foldl (\<lambda>x k. ?F (b s) x (j, k)) x ks" for x ks
      by (induction ks arbitrary: x) auto
    have upto: "[j..jmax s i - 1] = j # [j + 1..jmax s i - 1]"
      using True by (simp add: upto_rec1)
    have "loop2_j ops rN2 i j s = loop2_j ops rN2 i (j + 1) ?s1"
      using True m inner by (simp add: loop2_j.simps [of ops rN2 i j s])
    also have "\<dots> = Some (?s1\<lparr>c := (c ?s1)(i := foldl (?F (b ?s1)) (c ?s1 i)
         (concat (map (\<lambda>j. map (Pair j) [0..j - 1]) [j + 1..jmax ?s1 i - 1])))\<rparr>)"
      using "1.prems" by (intro "1.IH" [OF m True inner]) auto
    also have "\<dots> = Some (s\<lparr>c := (c s)(i := foldl (?F (b s))
         (foldl (\<lambda>x k. ?F (b s) x (j, k)) (c s i) [0..j - 1])
         (concat (map (\<lambda>j. map (Pair j) [0..j - 1]) [j + 1..jmax s i - 1])))\<rparr>)"
      by simp
    also have "foldl (?F (b s)) (foldl (\<lambda>x k. ?F (b s) x (j, k)) (c s i) [0..j - 1])
         (concat (map (\<lambda>j. map (Pair j) [0..j - 1]) [j + 1..jmax s i - 1])) =
       foldl (?F (b s)) (c s i) (concat (map (\<lambda>j. map (Pair j) [0..j - 1]) [j..jmax s i - 1]))"
      by (simp only: upto list.map concat.simps foldl_append pair)
    finally show ?thesis .
  next
    case False
    then show ?thesis
      using m by (simp add: loop2_j.simps [of ops rN2 i j s])
  qed
qed

lemma loop2_row_closed:
  "in_bounds i \<Longrightarrow> jmax s i \<le> N \<Longrightarrow>
   loop2_row ops rN2 i s = Some (s\<lparr>c := (c s)(i := kernel_B_row ops rN2 s i)\<rparr>)"
  by (simp add: loop2_row_def loop2_j_closed kernel_B_row_def kernel_B_acc_def)

lemma kernel_B_row_cong:
  "b s' = b s \<Longrightarrow> jmax s' = jmax s \<Longrightarrow> c s' i = c s i \<Longrightarrow>
   kernel_B_row ops rN2 s' i = kernel_B_row ops rN2 s i"
  by (simp add: kernel_B_row_def kernel_B_acc_def)

lemma run_rows_loop2_row:
  "\<forall>i\<in>set rows. in_bounds i \<and> jmax s i \<le> N \<Longrightarrow> distinct rows \<Longrightarrow>
   run_rows (loop2_row ops rN2) rows s =
     Some (s\<lparr>c := \<lambda>i. if i \<in> set rows then kernel_B_row ops rN2 s i else c s i\<rparr>)"
proof (induction rows arbitrary: s)
  case Nil
  then show ?case by simp
next
  case (Cons i rows)
  let ?s1 = "s\<lparr>c := (c s)(i := kernel_B_row ops rN2 s i)\<rparr>"
  have "run_rows (loop2_row ops rN2) (i # rows) s = run_rows (loop2_row ops rN2) rows ?s1"
    using Cons.prems by (simp add: loop2_row_closed)
  also have "\<dots> = Some (?s1\<lparr>c := \<lambda>i. if i \<in> set rows then kernel_B_row ops rN2 ?s1 i else c ?s1 i\<rparr>)"
    using Cons.prems by (intro Cons.IH) auto
  also have "(\<lambda>k. if k \<in> set rows then kernel_B_row ops rN2 ?s1 k else c ?s1 k) =
     (\<lambda>k. if k \<in> set (i # rows) then kernel_B_row ops rN2 s k else c s k)"
  proof
    fix k
    have "k \<in> set rows \<Longrightarrow> kernel_B_row ops rN2 ?s1 k = kernel_B_row ops rN2 s k"
      using Cons.prems by (intro kernel_B_row_cong) auto
    then show "(if k \<in> set rows then kernel_B_row ops rN2 ?s1 k else c ?s1 k) =
     (if k \<in> set (i # rows) then kernel_B_row ops rN2 s k else c s k)"
      by auto
  qed
  finally show ?case by simp
qed

text \<open>
  The loop nest of Kernel B run by one thread. For \<open>0 \<le> lo \<le> hi \<le> N\<close> and bounds
  \<open>jmax[i] \<le> N\<close> on the rows of the range it returns, and the state after it is the
  state before it but for \<open>c\<close>: for every \<open>i\<close> of \<open>[lo, hi)\<close>, \<open>c[i]\<close> has accumulated
  \<open>(k+1) * log(b[i][j]) * (1/N\<^sup>2)\<close> for every \<open>j\<close> in \<open>[0, jmax[i])\<close> and every \<open>k\<close> in
  \<open>[0, j)\<close>; every other element of \<open>c\<close> is as before.
\<close>

lemma loop2chunk_seq_contract:
  "0 \<le> lo \<Longrightarrow> lo \<le> hi \<Longrightarrow> hi \<le> N \<Longrightarrow> (\<forall>i. lo \<le> i \<and> i < hi \<longrightarrow> jmax s i \<le> N) \<Longrightarrow>
   loop2chunk_seq ops lo hi s =
     Some (s\<lparr>c := \<lambda>i. if lo \<le> i \<and> i < hi
        then kernel_B_row ops (loop2_rN2 ops) s i else c s i\<rparr>)"
proof -
  assume b: "0 \<le> lo" "lo \<le> hi" "hi \<le> N" "\<forall>i. lo \<le> i \<and> i < hi \<longrightarrow> jmax s i \<le> N"
  let ?r = "loop2_rN2 ops"
  have "loop2chunk_seq ops lo hi s = run_rows (loop2_row ops ?r) [lo..hi - 1] s"
    by (simp add: loop2chunk_seq_def for_up_run_rows)
  also have "\<dots> = Some (s\<lparr>c := \<lambda>i. if i \<in> set [lo..hi - 1] then kernel_B_row ops ?r s i else c s i\<rparr>)"
    using b by (intro run_rows_loop2_row) (auto simp: in_bounds_def)
  also have "(\<lambda>i. if i \<in> set [lo..hi - 1] then kernel_B_row ops ?r s i else c s i) =
     (\<lambda>i. if lo \<le> i \<and> i < hi then kernel_B_row ops ?r s i else c s i)"
    by (auto simp: fun_eq_iff)
  finally show ?thesis .
qed

lemma loop2chunk_seq_contract_example:
  "loop2chunk_seq real_ops 0 1 test_state = Some (test_state\<lparr>c := (\<lambda>i. 0)(0 := 1 / 531441)\<rparr>)"
  using loop2chunk_seq_contract [of 0 1 test_state real_ops]
  by (auto simp: N_def test_state_def real_ops_def loop2_rN2_def kernel_B_row_def kernel_B_acc_def fun_eq_iff upto_rec1)

section \<open>Initialisation for Kernel A\<close>

lemma init1_body_Some:
  "in_bounds i \<Longrightarrow> in_bounds j \<Longrightarrow>
   init1_body ops i j s =
     Some (s\<lparr>a := (a s)((i, j) := rnd ops 0),
             b := (b s)((i, j) := fmul ops (rnd ops 3.142) (rnd ops (of_int (i + j))))\<rparr>)"
  by (simp add: init1_body_def wr2_def)

lemma run_rows_init1_body:
  "in_bounds i \<Longrightarrow> \<forall>j\<in>set js. in_bounds j \<Longrightarrow>
   run_rows (init1_body ops i) js s =
     Some (s\<lparr>a := \<lambda>p. if fst p = i \<and> snd p \<in> set js then rnd ops 0 else a s p,
             b := \<lambda>p. if fst p = i \<and> snd p \<in> set js
                      then fmul ops (rnd ops 3.142) (rnd ops (of_int (fst p + snd p))) else b s p\<rparr>)"
proof (induction js arbitrary: s)
  case Nil
  then show ?case by simp
next
  case (Cons j js)
  let ?s1 = "s\<lparr>a := (a s)((i, j) := rnd ops 0),
             b := (b s)((i, j) := fmul ops (rnd ops 3.142) (rnd ops (of_int (i + j))))\<rparr>"
  have "run_rows (init1_body ops i) (j # js) s = run_rows (init1_body ops i) js ?s1"
    using Cons.prems by (simp add: init1_body_Some)
  also have "\<dots> = Some (?s1\<lparr>a := \<lambda>p. if fst p = i \<and> snd p \<in> set js then rnd ops 0 else a ?s1 p,
             b := \<lambda>p. if fst p = i \<and> snd p \<in> set js
                      then fmul ops (rnd ops 3.142) (rnd ops (of_int (fst p + snd p))) else b ?s1 p\<rparr>)"
    using Cons.prems by (intro Cons.IH) auto
  also have "\<dots> = Some (s\<lparr>a := \<lambda>p. if fst p = i \<and> snd p \<in> set (j # js) then rnd ops 0 else a s p,
             b := \<lambda>p. if fst p = i \<and> snd p \<in> set (j # js)
                      then fmul ops (rnd ops 3.142) (rnd ops (of_int (fst p + snd p))) else b s p\<rparr>)"
    by (auto simp: fun_eq_iff)
  finally show ?case .
qed

lemma run_rows_init1_rows:
  "\<forall>i\<in>set rows. in_bounds i \<Longrightarrow>
   run_rows (\<lambda>i. for_up 0 N (init1_body ops i)) rows s =
     Some (s\<lparr>a := \<lambda>p. if fst p \<in> set rows \<and> in_bounds (snd p) then rnd ops 0 else a s p,
             b := \<lambda>p. if fst p \<in> set rows \<and> in_bounds (snd p)
                      then fmul ops (rnd ops 3.142) (rnd ops (of_int (fst p + snd p))) else b s p\<rparr>)"
proof (induction rows arbitrary: s)
  case Nil
  then show ?case by simp
next
  case (Cons i rows)
  let ?s1 = "s\<lparr>a := \<lambda>p. if fst p = i \<and> snd p \<in> set [0..N - 1] then rnd ops 0 else a s p,
             b := \<lambda>p. if fst p = i \<and> snd p \<in> set [0..N - 1]
                      then fmul ops (rnd ops 3.142) (rnd ops (of_int (fst p + snd p))) else b s p\<rparr>"
  have "for_up 0 N (init1_body ops i) s = Some ?s1"
    using Cons.prems unfolding for_up_run_rows
    by (intro run_rows_init1_body) (auto simp: in_bounds_def)
  then have "run_rows (\<lambda>i. for_up 0 N (init1_body ops i)) (i # rows) s =
      run_rows (\<lambda>i. for_up 0 N (init1_body ops i)) rows ?s1"
    by simp
  also have "\<dots> = Some (?s1\<lparr>a := \<lambda>p. if fst p \<in> set rows \<and> in_bounds (snd p) then rnd ops 0 else a ?s1 p,
             b := \<lambda>p. if fst p \<in> set rows \<and> in_bounds (snd p)
                      then fmul ops (rnd ops 3.142) (rnd ops (of_int (fst p + snd p))) else b ?s1 p\<rparr>)"
    using Cons.prems by (intro Cons.IH) auto
  also have "\<dots> = Some (s\<lparr>a := \<lambda>p. if fst p \<in> set (i # rows) \<and> in_bounds (snd p) then rnd ops 0 else a s p,
             b := \<lambda>p. if fst p \<in> set (i # rows) \<and> in_bounds (snd p)
                      then fmul ops (rnd ops 3.142) (rnd ops (of_int (fst p + snd p))) else b s p\<rparr>)"
    by (auto simp: fun_eq_iff in_bounds_def)
  finally show ?case .
qed

lemma init1_closed:
  "init1 ops s =
     Some (s\<lparr>a := \<lambda>p. if in_bounds (fst p) \<and> in_bounds (snd p) then rnd ops 0 else a s p,
             b := \<lambda>p. if in_bounds (fst p) \<and> in_bounds (snd p)
                      then fmul ops (rnd ops 3.142) (rnd ops (of_int (fst p + snd p))) else b s p\<rparr>)"
proof -
  have "init1 ops s = run_rows (\<lambda>i. for_up 0 N (init1_body ops i)) [0..N - 1] s"
    by (simp add: init1_def for_up_run_rows)
  also have "\<dots> = Some (s\<lparr>a := \<lambda>p. if fst p \<in> set [0..N - 1] \<and> in_bounds (snd p) then rnd ops 0 else a s p,
             b := \<lambda>p. if fst p \<in> set [0..N - 1] \<and> in_bounds (snd p)
                      then fmul ops (rnd ops 3.142) (rnd ops (of_int (fst p + snd p))) else b s p\<rparr>)"
    by (intro run_rows_init1_rows) (auto simp: in_bounds_def)
  also have "\<dots> = Some (s\<lparr>a := \<lambda>p. if in_bounds (fst p) \<and> in_bounds (snd p) then rnd ops 0 else a s p,
             b := \<lambda>p. if in_bounds (fst p) \<and> in_bounds (snd p)
                      then fmul ops (rnd ops 3.142) (rnd ops (of_int (fst p + snd p))) else b s p\<rparr>)"
    by (auto simp: fun_eq_iff in_bounds_def)
  finally show ?thesis .
qed

text \<open>
  C9. \<open>init1\<close> returns from every state, and a second call right after it returns the
  very state of the first: whatever \<open>a\<close> and \<open>b\<close> held before, after each call
  \<open>b[i][j]\<close> is \<open>3.142*(i+j)\<close> and \<open>a[i][j]\<close> is \<open>0.0\<close> for all \<open>i\<close>, \<open>j\<close> in \<open>[0, N)\<close>.
\<close>

theorem init1_idempotent:
  "\<exists>s1. init1 ops s = Some s1 \<and> init1 ops s1 = Some s1 \<and>
     (\<forall>i j. 0 \<le> i \<and> i < N \<and> 0 \<le> j \<and> j < N \<longrightarrow>
        b s1 (i, j) = fmul ops (rnd ops 3.142) (rnd ops (of_int (i + j))) \<and> a s1 (i, j) = rnd ops 0.0)"
proof -
  let ?s1 = "s\<lparr>a := \<lambda>p. if in_bounds (fst p) \<and> in_bounds (snd p) then rnd ops 0 else a s p,
             b := \<lambda>p. if in_bounds (fst p) \<and> in_bounds (snd p)
                      then fmul ops (rnd ops 3.142) (rnd ops (of_int (fst p + snd p))) else b s p\<rparr>"
  have 1: "init1 ops s = Some ?s1"
    by (rule init1_closed)
  have "init1 ops ?s1 = Some (?s1\<lparr>a := \<lambda>p. if in_bounds (fst p) \<and> in_bounds (snd p) then rnd ops 0 else a ?s1 p,
             b := \<lambda>p. if in_bounds (fst p) \<and> in_bounds (snd p)
                      then fmul ops (rnd ops 3.142) (rnd ops (of_int (fst p + snd p))) else b ?s1 p\<rparr>)"
    by (rule init1_closed)
  also have "\<dots> = Some ?s1"
    by (auto simp: fun_eq_iff)
  finally have 2: "init1 ops ?s1 = Some ?s1" .
  have 3: "\<forall>i j. 0 \<le> i \<and> i < N \<and> 0 \<le> j \<and> j < N \<longrightarrow>
        b ?s1 (i, j) = fmul ops (rnd ops 3.142) (rnd ops (of_int (i + j))) \<and> a ?s1 (i, j) = rnd ops 0.0"
    by (simp add: in_bounds_def)
  from 1 2 3 show ?thesis by blast
qed

theorem init1_idempotent_witness:
  "\<exists>s1. init1 real_ops test_state = Some s1 \<and> init1 real_ops s1 = Some s1 \<and>
     b s1 (1, 2) = 9.426 \<and> a s1 (1, 2) = 0"
proof -
  from init1_idempotent [of real_ops test_state] obtain s1 where
    "init1 real_ops test_state = Some s1" "init1 real_ops s1 = Some s1"
    and cells: "\<forall>i j. 0 \<le> i \<and> i < N \<and> 0 \<le> j \<and> j < N \<longrightarrow>
        b s1 (i, j) = fmul real_ops (rnd real_ops 3.142) (rnd real_ops (of_int (i + j))) \<and>
        a s1 (i, j) = rnd real_ops 0.0"
    by blast
  moreover from cells have "b s1 (1, 2) = 9.426 \<and> a s1 (1, 2) = 0"
    by (simp add: N_def real_ops_def)
  ultimately show ?thesis by blast
qed

section \<open>Initialisation for Kernel B\<close>

lemma jmax_divisor_nonneg: "0 \<le> i \<Longrightarrow> jmax_divisor i = 3 * (i div 30) + 1"
  by (simp add: jmax_divisor_def signed_divide_int_def sgn_if)

lemma jmax_divisor_pos: "0 \<le> i \<Longrightarrow> 1 \<le> jmax_divisor i"
  by (simp add: jmax_divisor_nonneg pos_imp_zdiv_nonneg_iff)

lemma c_rem_nonneg: "0 \<le> i \<Longrightarrow> c_rem i (jmax_divisor i) = Some (i mod (3 * (i div 30) + 1))"
proof -
  assume i: "0 \<le> i"
  then have "0 < jmax_divisor i"
    using jmax_divisor_pos [of i] by simp
  with i have "i smod jmax_divisor i = i mod jmax_divisor i"
    by (simp add: signed_modulo_int_def sgn_if)
  moreover from \<open>0 < jmax_divisor i\<close> have "jmax_divisor i \<noteq> 0"
    by simp
  ultimately show ?thesis
    using i by (simp add: c_rem_def jmax_divisor_nonneg [symmetric])
qed

lemma init2_row_Some:
  "in_bounds i \<Longrightarrow>
   init2_row ops i s = Some (s\<lparr>c := (c s)(i := rnd ops 0), jmax := (jmax s)(i := jmax_shape i)\<rparr>)"
  by (simp add: init2_row_def c_rem_nonneg wr1_def in_bounds_def jmax_shape_def)

lemma run_rows_init2_row:
  "\<forall>i\<in>set rows. in_bounds i \<Longrightarrow>
   run_rows (init2_row ops) rows s =
     Some (s\<lparr>c := \<lambda>i. if i \<in> set rows then rnd ops 0 else c s i,
             jmax := \<lambda>i. if i \<in> set rows then jmax_shape i else jmax s i\<rparr>)"
proof (induction rows arbitrary: s)
  case Nil
  then show ?case by simp
next
  case (Cons i rows)
  let ?s1 = "s\<lparr>c := (c s)(i := rnd ops 0), jmax := (jmax s)(i := jmax_shape i)\<rparr>"
  have "run_rows (init2_row ops) (i # rows) s = run_rows (init2_row ops) rows ?s1"
    using Cons.prems by (simp add: init2_row_Some)
  also have "\<dots> = Some (?s1\<lparr>c := \<lambda>i. if i \<in> set rows then rnd ops 0 else c ?s1 i,
             jmax := \<lambda>i. if i \<in> set rows then jmax_shape i else jmax ?s1 i\<rparr>)"
    using Cons.prems by (intro Cons.IH) auto
  also have "\<dots> = Some (s\<lparr>c := \<lambda>k. if k \<in> set (i # rows) then rnd ops 0 else c s k,
             jmax := \<lambda>k. if k \<in> set (i # rows) then jmax_shape k else jmax s k\<rparr>)"
    by (auto simp: fun_eq_iff)
  finally show ?case .
qed

lemma init2_body_Some:
  "in_bounds i \<Longrightarrow> in_bounds j \<Longrightarrow>
   init2_body ops i j s =
     Some (s\<lparr>b := (b s)((i, j) := fdiv ops (rnd ops (of_int (i * j + 1))) (rnd ops (of_int (N * N))))\<rparr>)"
  by (simp add: init2_body_def wr2_def)

lemma run_rows_init2_body:
  "in_bounds i \<Longrightarrow> \<forall>j\<in>set js. in_bounds j \<Longrightarrow>
   run_rows (init2_body ops i) js s =
     Some (s\<lparr>b := \<lambda>p. if fst p = i \<and> snd p \<in> set js
                      then fdiv ops (rnd ops (of_int (fst p * snd p + 1))) (rnd ops (of_int (N * N)))
                      else b s p\<rparr>)"
proof (induction js arbitrary: s)
  case Nil
  then show ?case by simp
next
  case (Cons j js)
  let ?s1 = "s\<lparr>b := (b s)((i, j) := fdiv ops (rnd ops (of_int (i * j + 1))) (rnd ops (of_int (N * N))))\<rparr>"
  have "run_rows (init2_body ops i) (j # js) s = run_rows (init2_body ops i) js ?s1"
    using Cons.prems by (simp add: init2_body_Some)
  also have "\<dots> = Some (?s1\<lparr>b := \<lambda>p. if fst p = i \<and> snd p \<in> set js
                      then fdiv ops (rnd ops (of_int (fst p * snd p + 1))) (rnd ops (of_int (N * N)))
                      else b ?s1 p\<rparr>)"
    using Cons.prems by (intro Cons.IH) auto
  also have "\<dots> = Some (s\<lparr>b := \<lambda>p. if fst p = i \<and> snd p \<in> set (j # js)
                      then fdiv ops (rnd ops (of_int (fst p * snd p + 1))) (rnd ops (of_int (N * N)))
                      else b s p\<rparr>)"
    by (auto simp: fun_eq_iff)
  finally show ?case .
qed

lemma run_rows_init2_rows:
  "\<forall>i\<in>set rows. in_bounds i \<Longrightarrow>
   run_rows (\<lambda>i. for_up 0 N (init2_body ops i)) rows s =
     Some (s\<lparr>b := \<lambda>p. if fst p \<in> set rows \<and> in_bounds (snd p)
                      then fdiv ops (rnd ops (of_int (fst p * snd p + 1))) (rnd ops (of_int (N * N)))
                      else b s p\<rparr>)"
proof (induction rows arbitrary: s)
  case Nil
  then show ?case by simp
next
  case (Cons i rows)
  let ?s1 = "s\<lparr>b := \<lambda>p. if fst p = i \<and> snd p \<in> set [0..N - 1]
                      then fdiv ops (rnd ops (of_int (fst p * snd p + 1))) (rnd ops (of_int (N * N)))
                      else b s p\<rparr>"
  have "for_up 0 N (init2_body ops i) s = Some ?s1"
    using Cons.prems unfolding for_up_run_rows
    by (intro run_rows_init2_body) (auto simp: in_bounds_def)
  then have "run_rows (\<lambda>i. for_up 0 N (init2_body ops i)) (i # rows) s =
      run_rows (\<lambda>i. for_up 0 N (init2_body ops i)) rows ?s1"
    by simp
  also have "\<dots> = Some (?s1\<lparr>b := \<lambda>p. if fst p \<in> set rows \<and> in_bounds (snd p)
                      then fdiv ops (rnd ops (of_int (fst p * snd p + 1))) (rnd ops (of_int (N * N)))
                      else b ?s1 p\<rparr>)"
    using Cons.prems by (intro Cons.IH) auto
  also have "\<dots> = Some (s\<lparr>b := \<lambda>p. if fst p \<in> set (i # rows) \<and> in_bounds (snd p)
                      then fdiv ops (rnd ops (of_int (fst p * snd p + 1))) (rnd ops (of_int (N * N)))
                      else b s p\<rparr>)"
    by (auto simp: fun_eq_iff in_bounds_def)
  finally show ?case .
qed

lemma init2_closed:
  "init2 ops s =
     Some (s\<lparr>b := \<lambda>p. if in_bounds (fst p) \<and> in_bounds (snd p)
                      then fdiv ops (rnd ops (of_int (fst p * snd p + 1))) (rnd ops (of_int (N * N)))
                      else b s p,
             c := \<lambda>i. if in_bounds i then rnd ops 0 else c s i,
             jmax := \<lambda>i. if in_bounds i then jmax_shape i else jmax s i\<rparr>)"
proof -
  let ?s1 = "s\<lparr>c := \<lambda>i. if i \<in> set [0..N - 1] then rnd ops 0 else c s i,
             jmax := \<lambda>i. if i \<in> set [0..N - 1] then jmax_shape i else jmax s i\<rparr>"
  have 1: "for_up 0 N (init2_row ops) s = Some ?s1"
    unfolding for_up_run_rows by (intro run_rows_init2_row) (auto simp: in_bounds_def)
  have "for_up 0 N (\<lambda>i. for_up 0 N (init2_body ops i)) ?s1 =
     run_rows (\<lambda>i. for_up 0 N (init2_body ops i)) [0..N - 1] ?s1"
    by (rule for_up_run_rows)
  also have "\<dots> =
     Some (?s1\<lparr>b := \<lambda>p. if fst p \<in> set [0..N - 1] \<and> in_bounds (snd p)
                      then fdiv ops (rnd ops (of_int (fst p * snd p + 1))) (rnd ops (of_int (N * N)))
                      else b ?s1 p\<rparr>)"
    by (intro run_rows_init2_rows) (auto simp: in_bounds_def)
  finally have 2: "for_up 0 N (\<lambda>i. for_up 0 N (init2_body ops i)) ?s1 =
     Some (?s1\<lparr>b := \<lambda>p. if fst p \<in> set [0..N - 1] \<and> in_bounds (snd p)
                      then fdiv ops (rnd ops (of_int (fst p * snd p + 1))) (rnd ops (of_int (N * N)))
                      else b ?s1 p\<rparr>)" .
  have "init2 ops s = for_up 0 N (\<lambda>i. for_up 0 N (init2_body ops i)) ?s1"
    by (simp add: init2_def 1)
  also note 2
  also have "Some (?s1\<lparr>b := \<lambda>p. if fst p \<in> set [0..N - 1] \<and> in_bounds (snd p)
                      then fdiv ops (rnd ops (of_int (fst p * snd p + 1))) (rnd ops (of_int (N * N)))
                      else b ?s1 p\<rparr>) =
     Some (s\<lparr>b := \<lambda>p. if in_bounds (fst p) \<and> in_bounds (snd p)
                      then fdiv ops (rnd ops (of_int (fst p * snd p + 1))) (rnd ops (of_int (N * N)))
                      else b s p,
             c := \<lambda>i. if in_bounds i then rnd ops 0 else c s i,
             jmax := \<lambda>i. if in_bounds i then jmax_shape i else jmax s i\<rparr>)"
    by (auto simp: fun_eq_iff in_bounds_def)
  finally show ?thesis .
qed

text \<open>
  C3. With \<open>N = 729\<close>, \<open>init2\<close> returns, and after it, for every \<open>i\<close> in \<open>[0, N)\<close>,
  \<open>jmax[i]\<close> is \<open>N\<close> if and only if \<open>i mod (3*(i div 30)+1) = 0\<close>, and is 1 otherwise.
\<close>

theorem jmax_shape_correct:
  "N = 729 \<and>
   (\<exists>s'. init2 ops s = Some s' \<and>
     (\<forall>i. 0 \<le> i \<and> i < N \<longrightarrow>
        (jmax s' i = N \<longleftrightarrow> i mod (3 * (i div 30) + 1) = 0) \<and>
        (i mod (3 * (i div 30) + 1) \<noteq> 0 \<longrightarrow> jmax s' i = 1)))"
  by (simp add: init2_closed in_bounds_def jmax_shape_def N_def)

theorem jmax_shape_correct_witness:
  "\<exists>s'. init2 real_ops zero_state = Some s' \<and> jmax s' 0 = 729 \<and> jmax s' 1 = 729 \<and>
     jmax s' 30 = 1 \<and> jmax s' 32 = 729 \<and> jmax s' 728 = 1"
proof -
  from jmax_shape_correct [of real_ops zero_state] obtain s' where
    s': "init2 real_ops zero_state = Some s'"
    and shape: "\<forall>i. 0 \<le> i \<and> i < N \<longrightarrow>
        (jmax s' i = N \<longleftrightarrow> i mod (3 * (i div 30) + 1) = 0) \<and>
        (i mod (3 * (i div 30) + 1) \<noteq> 0 \<longrightarrow> jmax s' i = 1)"
    by blast
  from shape [rule_format, of 0] shape [rule_format, of 1] shape [rule_format, of 30]
    shape [rule_format, of 32] shape [rule_format, of 728]
  have "jmax s' 0 = 729 \<and> jmax s' 1 = 729 \<and> jmax s' 30 = 1 \<and> jmax s' 32 = 729 \<and> jmax s' 728 = 1"
    by (simp add: N_def)
  with s' show ?thesis by blast
qed

text \<open>
  C10. For every \<open>i \<ge> 0\<close> the divisor \<open>3*(i/30)+1\<close> of the remainder in \<open>init2\<close> is
  at least 1: the remainder is defined for every \<open>i\<close> in \<open>[0, N)\<close>, no iteration of the
  first loop divides by zero, and \<open>init2\<close> returns.
\<close>

theorem divisor_never_zero:
  "(\<forall>i. 0 \<le> i \<longrightarrow> 1 \<le> jmax_divisor i) \<and>
   (\<forall>i. 0 \<le> i \<and> i < N \<longrightarrow> c_rem i (jmax_divisor i) \<noteq> None) \<and>
   (\<forall>i s. 0 \<le> i \<and> i < N \<longrightarrow> init2_row ops i s \<noteq> None) \<and>
   init2 ops s \<noteq> None"
  by (simp add: jmax_divisor_pos c_rem_nonneg init2_row_Some in_bounds_def init2_closed)

theorem divisor_never_zero_witness:
  "jmax_divisor 0 = 1 \<and> jmax_divisor 728 = 73 \<and> c_rem 728 (jmax_divisor 728) = Some 71 \<and>
   init2_row real_ops 728 zero_state \<noteq> None \<and> init2 real_ops zero_state \<noteq> None"
  using divisor_never_zero [of real_ops zero_state]
  by (simp add: jmax_divisor_def c_rem_def N_def signed_divide_int_def signed_modulo_int_def)

text \<open>
  C5. \<open>init2\<close> returns, and after it \<open>b[i][j]\<close> is the quotient
  \<^verbatim>\<open>(double)(i*j+1) / (double)(N*N)\<close> for all \<open>i\<close>, \<open>j\<close> in \<open>[0, N)\<close>. Let \<open>val\<close> give the
  real number that a \<open>double\<close> stands for, and let the arithmetic have two properties of
  IEEE binary64: the \<open>double\<close> of an \<open>int\<close> from 1 to \<open>2^53\<close> is that number, and the
  quotient of two positive numbers, when the exact quotient lies between \<open>1 / 2^1022\<close>
  and 1, is the exact quotient up to a relative error of \<open>1 / 2^53\<close>. Then \<open>b[i][j]\<close> is
  \<open>(i*j+1)/N\<^sup>2\<close> up to this relative error, and it is strictly positive; so every entry
  that Kernel B gives to \<open>log\<close>, which is \<open>b[i][j]\<close> for a row \<open>i\<close> in \<open>[0, N)\<close> and
  \<open>0 \<le> j < jmax[i]\<close>, is strictly positive.
\<close>

theorem init2_b_positive:
  fixes val :: "'d \<Rightarrow> real"
  assumes ints: "\<forall>m::int. 0 < m \<and> m \<le> 2 ^ 53 \<longrightarrow> val (rnd ops (of_int m)) = of_int m"
    and quot: "\<forall>x y. 0 < val x \<and> 0 < val y \<and> 1 / 2 ^ 1022 \<le> val x / val y \<and> val x / val y \<le> 1 \<longrightarrow>
                 \<bar>val (fdiv ops x y) - val x / val y\<bar> \<le> val x / val y / 2 ^ 53"
  shows "\<exists>s'. init2 ops s = Some s' \<and>
     (\<forall>i j. 0 \<le> i \<and> i < N \<and> 0 \<le> j \<and> j < N \<longrightarrow>
        b s' (i, j) = fdiv ops (rnd ops (of_int (i * j + 1))) (rnd ops (of_int (N * N))) \<and>
        \<bar>val (b s' (i, j)) - real_of_int (i * j + 1) / real_of_int (N * N)\<bar> \<le>
          real_of_int (i * j + 1) / real_of_int (N * N) / 2 ^ 53 \<and>
        0 < val (b s' (i, j))) \<and>
     (\<forall>i j. 0 \<le> i \<and> i < N \<and> 0 \<le> j \<and> j < jmax s' i \<longrightarrow> 0 < val (b s' (i, j)))"
proof -
  let ?q = "\<lambda>i j. fdiv ops (rnd ops (of_int (i * j + 1))) (rnd ops (of_int (N * N)))"
  let ?s' = "s\<lparr>b := \<lambda>p. if in_bounds (fst p) \<and> in_bounds (snd p)
                      then fdiv ops (rnd ops (of_int (fst p * snd p + 1))) (rnd ops (of_int (N * N)))
                      else b s p,
             c := \<lambda>i. if in_bounds i then rnd ops 0 else c s i,
             jmax := \<lambda>i. if in_bounds i then jmax_shape i else jmax s i\<rparr>"
  have cell: "\<bar>val (?q i j) - real_of_int (i * j + 1) / real_of_int (N * N)\<bar> \<le>
          real_of_int (i * j + 1) / real_of_int (N * N) / 2 ^ 53 \<and> 0 < val (?q i j)"
    if range: "0 \<le> i" "i < N" "0 \<le> j" "j < N" for i j
  proof -
    let ?r = "real_of_int (i * j + 1) / real_of_int (N * N)"
    from range have "i * j \<le> 728 * 728"
      by (intro mult_mono) (simp_all add: N_def)
    moreover from range have "0 \<le> i * j"
      by simp
    ultimately have m: "0 < i * j + 1" "i * j + 1 \<le> 2 ^ 53" "i * j + 1 \<le> N * N"
      by (simp_all add: N_def)
    have n: "0 < N * N" "N * N \<le> 2 ^ 53"
      by (simp_all add: N_def)
    from ints m have x: "val (rnd ops (of_int (i * j + 1))) = real_of_int (i * j + 1)"
      by blast
    from ints n have y: "val (rnd ops (of_int (N * N))) = real_of_int (N * N)"
      by blast
    from m have xpos: "1 \<le> real_of_int (i * j + 1)"
      by linarith
    from n have ypos: "0 < real_of_int (N * N)"
      by linarith
    from m have "real_of_int (i * j + 1) \<le> real_of_int (N * N)"
      by linarith
    with ypos have le1: "?r \<le> 1"
      by simp
    have "1 / real_of_int (N * N) \<le> ?r"
      using xpos ypos by (simp add: divide_right_mono)
    moreover have "(1::real) / 2 ^ 1022 \<le> 1 / real_of_int (N * N)"
      by (simp add: N_def)
    ultimately have ge: "1 / 2 ^ 1022 \<le> ?r"
      by linarith
    from xpos ypos have rpos: "0 < ?r"
      by simp
    from quot [rule_format, of "rnd ops (of_int (i * j + 1))" "rnd ops (of_int (N * N))"]
      xpos ypos le1 ge
    have err: "\<bar>val (?q i j) - ?r\<bar> \<le> ?r / 2 ^ 53"
      by (simp only: x y) simp
    have "?r / 2 ^ 53 < ?r"
      using rpos by (simp add: field_simps)
    with err have "0 < val (?q i j)"
      by linarith
    with err show ?thesis
      by blast
  qed
  have 1: "\<forall>i j. 0 \<le> i \<and> i < N \<and> 0 \<le> j \<and> j < N \<longrightarrow>
        b ?s' (i, j) = ?q i j \<and>
        \<bar>val (b ?s' (i, j)) - real_of_int (i * j + 1) / real_of_int (N * N)\<bar> \<le>
          real_of_int (i * j + 1) / real_of_int (N * N) / 2 ^ 53 \<and>
        0 < val (b ?s' (i, j))"
    using cell by (simp add: in_bounds_def)
  have le: "jmax ?s' i \<le> N" if "0 \<le> i" "i < N" for i
    using that by (simp add: in_bounds_def jmax_shape_def N_def)
  have 2: "\<forall>i j. 0 \<le> i \<and> i < N \<and> 0 \<le> j \<and> j < jmax ?s' i \<longrightarrow> 0 < val (b ?s' (i, j))"
  proof (intro allI impI)
    fix i j
    assume h: "0 \<le> i \<and> i < N \<and> 0 \<le> j \<and> j < jmax ?s' i"
    with le [of i] have "j < N"
      by linarith
    with h 1 show "0 < val (b ?s' (i, j))"
      by blast
  qed
  from init2_closed [of ops s] 1 2 show ?thesis by blast
qed

theorem init2_b_positive_witness:
  "\<exists>s'. init2 real_ops zero_state = Some s' \<and> b s' (2, 3) = 7 / 531441 \<and> 0 < b s' (2, 3)"
proof -
  have ints: "\<forall>m::int. 0 < m \<and> m \<le> 2 ^ 53 \<longrightarrow> rnd real_ops (of_int m) = of_int m"
    by (simp add: real_ops_def)
  have quot: "\<forall>x y :: real. 0 < x \<and> 0 < y \<and> 1 / 2 ^ 1022 \<le> x / y \<and> x / y \<le> 1 \<longrightarrow>
      \<bar>fdiv real_ops x y - x / y\<bar> \<le> x / y / 2 ^ 53"
    by (simp add: real_ops_def)
  from init2_b_positive [of "\<lambda>x. x" real_ops zero_state, OF ints quot] obtain s' where
    s': "init2 real_ops zero_state = Some s'"
    and cells: "\<forall>i j. 0 \<le> i \<and> i < N \<and> 0 \<le> j \<and> j < N \<longrightarrow>
        b s' (i, j) = fdiv real_ops (rnd real_ops (of_int (i * j + 1))) (rnd real_ops (of_int (N * N))) \<and>
        \<bar>b s' (i, j) - real_of_int (i * j + 1) / real_of_int (N * N)\<bar> \<le>
          real_of_int (i * j + 1) / real_of_int (N * N) / 2 ^ 53 \<and>
        0 < b s' (i, j)"
    by blast
  from cells [rule_format, of 2 3] have "b s' (2, 3) = 7 / 531441 \<and> 0 < b s' (2, 3)"
    by (simp add: N_def real_ops_def)
  with s' show ?thesis by blast
qed

section \<open>Repeated calls and chunks run one after the other\<close>

lemma partition_rows:
  assumes "is_partition cs lo hi"
  shows "distinct (chunk_rows cs)" and "set (chunk_rows cs) = {lo..hi - 1}"
proof -
  from assms have m: "mset (chunk_rows cs) = mset [lo..hi - 1]"
    by (simp add: is_partition_def)
  from mset_eq_imp_distinct_iff [OF m] show "distinct (chunk_rows cs)"
    by simp
  from mset_eq_setD [OF m] show "set (chunk_rows cs) = {lo..hi - 1}"
    by simp
qed

lemma run_rows_kernel_A_calls:
  assumes "0 \<le> lo" "hi \<le> N" "distinct rows" "set rows = {lo..hi - 1}"
  shows "run_rows (loop1_row ops) rows s = Some (kernel_A_calls ops lo hi (Suc 0) s)"
proof -
  have "run_rows (loop1_row ops) rows s =
     Some (s\<lparr>a := \<lambda>p. if fst p \<in> set rows \<and> fst p < snd p \<and> snd p < N
                       then fadd ops (a s p) (fcos ops (b s p)) else a s p\<rparr>)"
    using assms by (intro run_rows_loop1_row) (auto simp: in_bounds_def)
  also have "\<dots> = Some (kernel_A_calls ops lo hi (Suc 0) s)"
    using assms by (auto simp: kernel_A_calls_def fun_eq_iff cong: if_cong)
  finally show ?thesis .
qed

lemma kernel_A_calls_0: "kernel_A_calls ops lo hi 0 s = s"
  by (simp add: kernel_A_calls_def cong: if_cong)

lemma kernel_A_calls_Suc:
  "kernel_A_calls ops lo hi n (kernel_A_calls ops lo hi (Suc 0) s) = kernel_A_calls ops lo hi (Suc n) s"
  by (simp add: kernel_A_calls_def fun_eq_iff funpow_Suc_right del: funpow.simps cong: if_cong)

lemma run_calls_kernel_A:
  "0 \<le> lo \<Longrightarrow> hi \<le> N \<Longrightarrow> \<forall>cs\<in>set css. is_partition cs lo hi \<Longrightarrow>
   run_calls (loop1chunk_serial ops) css s = Some (kernel_A_calls ops lo hi (length css) s)"
proof (induction css arbitrary: s)
  case Nil
  then show ?case by (simp add: kernel_A_calls_0)
next
  case (Cons cs css)
  from Cons.prems have "is_partition cs lo hi" by simp
  with Cons.prems have "loop1chunk_serial ops cs s = Some (kernel_A_calls ops lo hi (Suc 0) s)"
    by (simp add: loop1chunk_serial_def run_chunks_run_rows run_rows_kernel_A_calls partition_rows)
  with Cons show ?case
    by (simp add: kernel_A_calls_Suc)
qed

lemma run_rows_loop1chunk:
  "0 \<le> lo \<Longrightarrow> hi \<le> N \<Longrightarrow>
   run_rows (\<lambda>r. loop1chunk_seq ops lo hi) rs s = Some (kernel_A_calls ops lo hi (length rs) s)"
proof (induction rs arbitrary: s)
  case Nil
  then show ?case by (simp add: kernel_A_calls_0)
next
  case (Cons r rs)
  from Cons.prems have "loop1chunk_seq ops lo hi s = Some (kernel_A_calls ops lo hi (Suc 0) s)"
    by (simp add: loop1chunk_seq_def for_up_run_rows run_rows_kernel_A_calls)
  with Cons show ?case
    by (simp add: kernel_A_calls_Suc)
qed

lemma repeat_loop1chunk:
  "0 \<le> lo \<Longrightarrow> hi \<le> N \<Longrightarrow>
   for_up 0 (int n) (\<lambda>r. loop1chunk_seq ops lo hi) s = Some (kernel_A_calls ops lo hi n s)"
  by (simp add: for_up_run_rows run_rows_loop1chunk)

lemma run_rows_kernel_B_calls:
  assumes "0 \<le> lo" "hi \<le> N" "distinct rows" "set rows = {lo..hi - 1}"
    and "\<forall>i. lo \<le> i \<and> i < hi \<longrightarrow> jmax s i \<le> N"
  shows "run_rows (loop2_row ops (loop2_rN2 ops)) rows s =
    Some (kernel_B_calls ops lo hi (Suc 0) s)"
proof -
  let ?r = "loop2_rN2 ops"
  have "run_rows (loop2_row ops ?r) rows s =
     Some (s\<lparr>c := \<lambda>i. if i \<in> set rows then kernel_B_row ops ?r s i else c s i\<rparr>)"
    using assms by (intro run_rows_loop2_row) (auto simp: in_bounds_def)
  also have "\<dots> = Some (kernel_B_calls ops lo hi (Suc 0) s)"
    using assms by (auto simp: kernel_B_calls_def kernel_B_row_def fun_eq_iff cong: if_cong)
  finally show ?thesis .
qed

lemma kernel_B_calls_0: "kernel_B_calls ops lo hi 0 s = s"
  by (simp add: kernel_B_calls_def cong: if_cong)

lemma kernel_B_acc_cong:
  "b s' = b s \<Longrightarrow> jmax s' = jmax s \<Longrightarrow> kernel_B_acc ops r s' i = kernel_B_acc ops r s i"
  by (simp add: kernel_B_acc_def fun_eq_iff)

lemma kernel_B_calls_Suc:
  "kernel_B_calls ops lo hi n (kernel_B_calls ops lo hi (Suc 0) s) = kernel_B_calls ops lo hi (Suc n) s"
proof -
  have acc: "kernel_B_acc ops r (s\<lparr>c := f\<rparr>) i = kernel_B_acc ops r s i" for r i f
    by (rule kernel_B_acc_cong) simp_all
  show ?thesis
    by (simp add: kernel_B_calls_def acc funpow_Suc_right del: funpow.simps cong: if_cong)
qed

lemma kernel_B_calls_jmax: "jmax (kernel_B_calls ops lo hi n s) = jmax s"
  by (simp add: kernel_B_calls_def)

lemma run_calls_kernel_B:
  "0 \<le> lo \<Longrightarrow> hi \<le> N \<Longrightarrow> \<forall>cs\<in>set css. is_partition cs lo hi \<Longrightarrow>
   \<forall>i. lo \<le> i \<and> i < hi \<longrightarrow> jmax s i \<le> N \<Longrightarrow>
   run_calls (loop2chunk_serial ops) css s = Some (kernel_B_calls ops lo hi (length css) s)"
proof (induction css arbitrary: s)
  case Nil
  then show ?case by (simp add: kernel_B_calls_0)
next
  case (Cons cs css)
  from Cons.prems have "is_partition cs lo hi" by simp
  with Cons.prems have 1: "loop2chunk_serial ops cs s = Some (kernel_B_calls ops lo hi (Suc 0) s)"
    by (simp add: loop2chunk_serial_def run_chunks_run_rows run_rows_kernel_B_calls partition_rows)
  have "run_calls (loop2chunk_serial ops) css (kernel_B_calls ops lo hi (Suc 0) s) =
     Some (kernel_B_calls ops lo hi (length css) (kernel_B_calls ops lo hi (Suc 0) s))"
    using Cons.prems by (intro Cons.IH) (simp_all add: kernel_B_calls_jmax)
  with 1 show ?case
    by (simp add: kernel_B_calls_Suc)
qed

lemma run_rows_loop2chunk:
  "0 \<le> lo \<Longrightarrow> hi \<le> N \<Longrightarrow> \<forall>i. lo \<le> i \<and> i < hi \<longrightarrow> jmax s i \<le> N \<Longrightarrow>
   run_rows (\<lambda>r. loop2chunk_seq ops lo hi) rs s = Some (kernel_B_calls ops lo hi (length rs) s)"
proof (induction rs arbitrary: s)
  case Nil
  then show ?case by (simp add: kernel_B_calls_0)
next
  case (Cons r rs)
  from Cons.prems have 1: "loop2chunk_seq ops lo hi s = Some (kernel_B_calls ops lo hi (Suc 0) s)"
    by (simp add: loop2chunk_seq_def for_up_run_rows run_rows_kernel_B_calls)
  have "run_rows (\<lambda>r. loop2chunk_seq ops lo hi) rs (kernel_B_calls ops lo hi (Suc 0) s) =
     Some (kernel_B_calls ops lo hi (length rs) (kernel_B_calls ops lo hi (Suc 0) s))"
    using Cons.prems by (intro Cons.IH) (simp_all add: kernel_B_calls_jmax)
  with 1 show ?case
    by (simp add: kernel_B_calls_Suc)
qed

lemma repeat_loop2chunk:
  "0 \<le> lo \<Longrightarrow> hi \<le> N \<Longrightarrow> \<forall>i. lo \<le> i \<and> i < hi \<longrightarrow> jmax s i \<le> N \<Longrightarrow>
   for_up 0 (int n) (\<lambda>r. loop2chunk_seq ops lo hi) s = Some (kernel_B_calls ops lo hi n s)"
  by (simp add: for_up_run_rows run_rows_loop2chunk)

section \<open>The checksums as folds\<close>

lemma run_rows_sum1:
  "\<forall>i\<in>set rows. in_bounds i \<Longrightarrow>
   run_rows (\<lambda>i x. do { y \<leftarrow> rd1 m i; Some (f x y) }) rows x = Some (foldl (\<lambda>x i. f x (m i)) x rows)"
  by (induction rows arbitrary: x) (simp_all add: rd1_def)

lemma run_rows_sum2:
  "in_bounds i \<Longrightarrow> \<forall>j\<in>set cols. in_bounds j \<Longrightarrow>
   run_rows (\<lambda>j x. do { y \<leftarrow> rd2 m i j; Some (f x y) }) cols x = Some (foldl (\<lambda>x j. f x (m (i, j))) x cols)"
  by (induction cols arbitrary: x) (simp_all add: rd2_def)

lemma valid2_closed:
  "valid2 ops s = Some (foldl (\<lambda>x i. fadd ops x (c s i)) (rnd ops 0) [0..N - 1])"
  by (simp add: valid2_def for_up_run_rows run_rows_sum1 in_bounds_def)

lemma valid1_closed:
  "valid1 ops s =
     Some (foldl (\<lambda>x i. foldl (\<lambda>x j. fadd ops x (a s (i, j))) x [0..N - 1]) (rnd ops 0) [0..N - 1])"
proof -
  have rows: "\<forall>i\<in>set rows. in_bounds i \<Longrightarrow>
    run_rows (\<lambda>i. for_up 0 N (\<lambda>j suma. do { x \<leftarrow> rd2 (a s) i j; Some (fadd ops suma x) })) rows x =
     Some (foldl (\<lambda>x i. foldl (\<lambda>x j. fadd ops x (a s (i, j))) x [0..N - 1]) x rows)" for rows x
  proof (induction rows arbitrary: x)
    case Nil
    then show ?case by simp
  next
    case (Cons i rows)
    then have "for_up 0 N (\<lambda>j suma. do { x \<leftarrow> rd2 (a s) i j; Some (fadd ops suma x) }) x =
      Some (foldl (\<lambda>x j. fadd ops x (a s (i, j))) x [0..N - 1])"
      unfolding for_up_run_rows by (intro run_rows_sum2) (simp_all add: in_bounds_def)
    with Cons show ?case by simp
  qed
  have "valid1 ops s =
     run_rows (\<lambda>i. for_up 0 N (\<lambda>j suma. do { x \<leftarrow> rd2 (a s) i j; Some (fadd ops suma x) })) [0..N - 1] (rnd ops 0)"
    unfolding valid1_def by (simp add: for_up_run_rows [of 0 N])
  also have "\<dots> = Some (foldl (\<lambda>x i. foldl (\<lambda>x j. fadd ops x (a s (i, j))) x [0..N - 1]) (rnd ops 0) [0..N - 1])"
    by (intro rows) (simp add: in_bounds_def)
  finally show ?thesis .
qed

section \<open>Chunks in any order\<close>

text \<open>
  The kernels as the specification describes a schedule, the chunks run one after the
  other. Let \<open>0 \<le> lo \<le> hi \<le> N\<close>, and let every call of a kernel have a list of chunks
  of its own, in which every index of \<open>[lo, hi)\<close> occurs once. Then the calls of Kernel A
  leave the state that as many runs of the loop nest by one thread leave; in it every
  cell \<open>a[i][j]\<close> with \<open>lo \<le> i < hi\<close> and \<open>i < j < N\<close> has had \<open>cos(b[i][j])\<close> added once
  for each call. With \<open>jmax[i] \<le> N\<close> on the range the same holds of Kernel B, and the
  checksum of \<open>c\<close> that \<open>valid2\<close> prints is the same number.
\<close>

lemma chunks_in_any_order:
  assumes "0 \<le> lo" "lo \<le> hi" "hi \<le> N"
    and "\<forall>cs\<in>set css. is_partition cs lo hi"
    and "\<forall>i. lo \<le> i \<and> i < hi \<longrightarrow> jmax s i \<le> N"
  shows "run_calls (loop1chunk_serial ops) css s = for_up 0 (int (length css)) (\<lambda>r. loop1chunk_seq ops lo hi) s \<and>
    (\<exists>s'. run_calls (loop1chunk_serial ops) css s = Some s' \<and>
       (\<forall>i j. lo \<le> i \<and> i < hi \<and> i < j \<and> j < N \<longrightarrow>
          a s' (i, j) = ((\<lambda>x. fadd ops x (fcos ops (b s (i, j)))) ^^ length css) (a s (i, j)))) \<and>
    run_calls (loop2chunk_serial ops) css s = for_up 0 (int (length css)) (\<lambda>r. loop2chunk_seq ops lo hi) s \<and>
    (\<exists>s' sumc. run_calls (loop2chunk_serial ops) css s = Some s' \<and> valid2 ops s' = Some sumc \<and>
       Option.bind (for_up 0 (int (length css)) (\<lambda>r. loop2chunk_seq ops lo hi) s) (valid2 ops) = Some sumc)"
proof -
  have A: "run_calls (loop1chunk_serial ops) css s = Some (kernel_A_calls ops lo hi (length css) s)"
    using assms by (intro run_calls_kernel_A)
  have A': "for_up 0 (int (length css)) (\<lambda>r. loop1chunk_seq ops lo hi) s =
      Some (kernel_A_calls ops lo hi (length css) s)"
    using assms by (intro repeat_loop1chunk)
  have B: "run_calls (loop2chunk_serial ops) css s = Some (kernel_B_calls ops lo hi (length css) s)"
    using assms by (intro run_calls_kernel_B)
  have B': "for_up 0 (int (length css)) (\<lambda>r. loop2chunk_seq ops lo hi) s =
      Some (kernel_B_calls ops lo hi (length css) s)"
    using assms by (intro repeat_loop2chunk)
  have cells: "\<forall>i j. lo \<le> i \<and> i < hi \<and> i < j \<and> j < N \<longrightarrow>
          a (kernel_A_calls ops lo hi (length css) s) (i, j) =
          ((\<lambda>x. fadd ops x (fcos ops (b s (i, j)))) ^^ length css) (a s (i, j))"
    by (simp add: kernel_A_calls_def)
  from A A' B B' cells show ?thesis
    by (simp add: valid2_closed)
qed

lemma chunks_in_any_order_example:
  "run_calls (loop1chunk_serial real_ops) [[(728, 729), (727, 728)], [(727, 729)]] test_state =
     for_up 0 2 (\<lambda>r. loop1chunk_seq real_ops 727 729) test_state \<and>
   (\<exists>s'. run_calls (loop1chunk_serial real_ops) [[(728, 729), (727, 728)], [(727, 729)]] test_state = Some s' \<and>
      a s' (727, 728) = cos (exp 1) + cos (exp 1)) \<and>
   run_calls (loop2chunk_serial real_ops) [[(728, 729), (727, 728)], [(727, 729)]] test_state =
     for_up 0 2 (\<lambda>r. loop2chunk_seq real_ops 727 729) test_state"
proof -
  have p1: "is_partition [(728, 729), (727, 728)] 727 729"
    by (simp add: is_partition_def chunk_rows_def upto_rec1)
  have p2: "is_partition [(727, 729)] 727 729"
    by (simp add: is_partition_def chunk_rows_def)
  have "(0::int) \<le> 727" "(727::int) \<le> 729" "729 \<le> N"
    "\<forall>cs\<in>set [[(728, 729), (727, 728)], [(727, 729)]]. is_partition cs 727 729"
    "\<forall>i. 727 \<le> i \<and> i < 729 \<longrightarrow> jmax test_state i \<le> N"
    using p1 p2 by (simp_all add: N_def test_state_def)
  note inv = chunks_in_any_order [OF this, of real_ops]
  from inv have A: "run_calls (loop1chunk_serial real_ops) [[(728, 729), (727, 728)], [(727, 729)]] test_state =
     for_up 0 2 (\<lambda>r. loop1chunk_seq real_ops 727 729) test_state"
    by simp
  from inv have B: "run_calls (loop2chunk_serial real_ops) [[(728, 729), (727, 728)], [(727, 729)]] test_state =
     for_up 0 2 (\<lambda>r. loop2chunk_seq real_ops 727 729) test_state"
    by simp
  from inv obtain s' where
    s': "run_calls (loop1chunk_serial real_ops) [[(728, 729), (727, 728)], [(727, 729)]] test_state = Some s'"
    and cells: "\<forall>i j. 727 \<le> i \<and> i < 729 \<and> i < j \<and> j < N \<longrightarrow>
          a s' (i, j) = ((\<lambda>x. fadd real_ops x (fcos real_ops (b test_state (i, j)))) ^^
            length [[(728, 729), (727, 728)], [(727 :: int, 729 :: int)]]) (a test_state (i, j))"
    by blast
  from cells [rule_format, of 727 728] have "a s' (727, 728) = cos (exp 1) + cos (exp 1)"
    by (simp add: N_def real_ops_def test_state_def)
  with s' A B show ?thesis
    by blast
qed

section \<open>Row exclusivity\<close>

lemma run_rows_rel:
  assumes step: "\<And>x s s'. body x s = Some s' \<Longrightarrow> R s s'"
    and refl: "\<And>s. R s s"
    and trans: "\<And>s t u. R s t \<Longrightarrow> R t u \<Longrightarrow> R s u"
  shows "run_rows body xs s = Some s' \<Longrightarrow> R s s'"
proof (induction xs arbitrary: s)
  case Nil
  then show ?case by (simp add: refl)
next
  case (Cons x xs)
  from Cons.prems obtain t where t: "body x s = Some t" and rest: "run_rows body xs t = Some s'"
    by (auto split: option.splits)
  from step [OF t] Cons.IH [OF rest] show ?case
    by (rule trans)
qed

lemma loop1_body_frame: "loop1_body ops i j s = Some s' \<Longrightarrow> only_a_row i s s'"
  by (auto simp: loop1_body_def rd2_def wr2_def only_a_row_def split: if_splits Option.bind_splits)

lemma loop1_row_frame: "loop1_row ops i s = Some s' \<Longrightarrow> only_a_row i s s'"
  unfolding loop1_row_def for_down_run_rows
proof (erule run_rows_rel [rotated 3])
  show "\<And>x s s'. loop1_body ops i x s = Some s' \<Longrightarrow> only_a_row i s s'"
    by (rule loop1_body_frame)
  show "\<And>s :: 'a state. only_a_row i s s"
    by (simp add: only_a_row_def)
  show "\<And>s t u :: 'a state. only_a_row i s t \<Longrightarrow> only_a_row i t u \<Longrightarrow> only_a_row i s u"
    by (simp add: only_a_row_def)
qed

lemma loop1chunk_frame: "loop1chunk_seq ops lo hi s = Some s' \<Longrightarrow> keeps_inputs s s'"
  unfolding loop1chunk_seq_def for_up_run_rows
proof (erule run_rows_rel [rotated 3])
  show "\<And>x s s'. loop1_row ops x s = Some s' \<Longrightarrow> keeps_inputs s s'"
    by (drule loop1_row_frame) (simp add: only_a_row_def keeps_inputs_def)
  show "\<And>s :: 'a state. keeps_inputs s s"
    by (simp add: keeps_inputs_def)
  show "\<And>s t u :: 'a state. keeps_inputs s t \<Longrightarrow> keeps_inputs t u \<Longrightarrow> keeps_inputs s u"
    by (simp add: keeps_inputs_def)
qed

lemma loop2_body_frame: "loop2_body ops r i j k s = Some s' \<Longrightarrow> only_c_row i s s'"
  by (auto simp: loop2_body_def rd1_def rd2_def wr1_def only_c_row_def split: if_splits Option.bind_splits)

lemma only_c_row_refl: "only_c_row i s s"
  by (simp add: only_c_row_def)

lemma only_c_row_trans: "only_c_row i s t \<Longrightarrow> only_c_row i t u \<Longrightarrow> only_c_row i s u"
  by (simp add: only_c_row_def)

lemma loop2_j_frame: "loop2_j ops r i j s = Some s' \<Longrightarrow> only_c_row i s s'"
proof (induction ops r i j s rule: loop2_j.induct)
  case (1 ops r i j s)
  from "1.prems" obtain m where m: "rd1 (jmax s) i = Some m"
    by (auto simp: loop2_j.simps [of ops r i j s] split: option.splits)
  show ?case
  proof (cases "j < m")
    case True
    with "1.prems" m obtain t where t: "for_up 0 j (loop2_body ops r i j) s = Some t"
      and rest: "loop2_j ops r i (j + 1) t = Some s'"
      by (auto simp: loop2_j.simps [of ops r i j s] split: option.splits)
    from t have "only_c_row i s t"
      unfolding for_up_run_rows
      by (rule run_rows_rel [rotated 3]) (auto intro: loop2_body_frame only_c_row_refl only_c_row_trans)
    moreover from "1.IH" [OF m True t rest] have "only_c_row i t s'" .
    ultimately show ?thesis
      by (rule only_c_row_trans)
  next
    case False
    with "1.prems" m show ?thesis
      by (simp add: loop2_j.simps [of ops r i j s] only_c_row_refl)
  qed
qed

lemma loop2_row_frame: "loop2_row ops r i s = Some s' \<Longrightarrow> only_c_row i s s'"
  unfolding loop2_row_def by (rule loop2_j_frame)

lemma loop2chunk_frame: "loop2chunk_seq ops lo hi s = Some s' \<Longrightarrow> keeps_inputs s s'"
  unfolding loop2chunk_seq_def for_up_run_rows
proof (erule run_rows_rel [rotated 3])
  show "\<And>x s s'. loop2_row ops (loop2_rN2 ops) x s = Some s' \<Longrightarrow> keeps_inputs s s'"
    by (drule loop2_row_frame) (simp add: only_c_row_def keeps_inputs_def)
  show "\<And>s :: 'a state. keeps_inputs s s"
    by (simp add: keeps_inputs_def)
  show "\<And>s t u :: 'a state. keeps_inputs s t \<Longrightarrow> keeps_inputs t u \<Longrightarrow> keeps_inputs s u"
    by (simp add: keeps_inputs_def)
qed

lemma writes_loop1_row: "writes (\<lambda>ops :: 'd fops. loop1_row ops i) \<subseteq> {l. \<exists>j. l = LocA i j}"
proof
  fix l
  assume "l \<in> writes (\<lambda>ops :: 'd fops. loop1_row ops i)"
  then obtain ops :: "'d fops" and s s' where run: "loop1_row ops i s = Some s'"
    and neq: "read_loc s' l \<noteq> read_loc s l"
    by (auto simp: writes_def)
  from loop1_row_frame [OF run] neq show "l \<in> {l. \<exists>j. l = LocA i j}"
    by (cases l) (auto simp: only_a_row_def)
qed

lemma writes_loop2_row:
  "writes (\<lambda>ops :: 'd fops. loop2_row ops (r ops) i) \<subseteq> {LocC i}"
proof
  fix l
  assume "l \<in> writes (\<lambda>ops :: 'd fops. loop2_row ops (r ops) i)"
  then obtain ops :: "'d fops" and s s' where run: "loop2_row ops (r ops) i s = Some s'"
    and neq: "read_loc s' l \<noteq> read_loc s l"
    by (auto simp: writes_def)
  from loop2_row_frame [OF run] neq show "l \<in> {LocC i}"
    by (cases l) (auto simp: only_c_row_def)
qed

lemma writes_loop1chunk:
  "writes (\<lambda>ops :: 'd fops. loop1chunk_seq ops lo hi) \<inter> {l. \<exists>k j. l = LocB k j \<or> l = LocJmax k} = {}"
proof -
  have "l \<notin> {l. \<exists>k j. l = LocB k j \<or> l = LocJmax k}"
    if "l \<in> writes (\<lambda>ops :: 'd fops. loop1chunk_seq ops lo hi)" for l
  proof -
    from that obtain ops :: "'d fops" and s s' where run: "loop1chunk_seq ops lo hi s = Some s'"
      and neq: "read_loc s' l \<noteq> read_loc s l"
      by (auto simp: writes_def)
    from loop1chunk_frame [OF run] neq show ?thesis
      by (cases l) (auto simp: keeps_inputs_def)
  qed
  then show ?thesis by blast
qed

lemma writes_loop2chunk:
  "writes (\<lambda>ops :: 'd fops. loop2chunk_seq ops lo hi) \<inter> {l. \<exists>k j. l = LocB k j \<or> l = LocJmax k} = {}"
proof -
  have "l \<notin> {l. \<exists>k j. l = LocB k j \<or> l = LocJmax k}"
    if "l \<in> writes (\<lambda>ops :: 'd fops. loop2chunk_seq ops lo hi)" for l
  proof -
    from that obtain ops :: "'d fops" and s s' where run: "loop2chunk_seq ops lo hi s = Some s'"
      and neq: "read_loc s' l \<noteq> read_loc s l"
      by (auto simp: writes_def)
    from loop2chunk_frame [OF run] neq show ?thesis
      by (cases l) (auto simp: keeps_inputs_def)
  qed
  then show ?thesis by blast
qed

text \<open>
  On the arrays the rows are exclusive. For distinct outer indices \<open>i\<close> and \<open>i'\<close> (of any
  range), an iteration of Kernel A for \<open>i\<close> writes only cells of row \<open>i\<close> of \<open>a\<close>, and
  what it writes is disjoint from what the iteration for \<open>i'\<close> writes; an iteration of
  Kernel B for \<open>i\<close> writes only \<open>c[i]\<close>; and no call of either kernel writes an element
  of \<open>b\<close> or of \<open>jmax\<close>.
\<close>

lemma array_rows_exclusive:
  "i \<noteq> i' \<Longrightarrow>
   writes (\<lambda>ops :: 'd fops. loop1_row ops i) \<subseteq> {l. \<exists>j. l = LocA i j} \<and>
   writes (\<lambda>ops :: 'd fops. loop1_row ops i) \<inter> writes (\<lambda>ops :: 'd fops. loop1_row ops i') = {} \<and>
   writes (\<lambda>ops :: 'd fops. loop2_row ops (loop2_rN2 ops) i) \<subseteq> {LocC i} \<and>
   writes (\<lambda>ops :: 'd fops. loop2_row ops (loop2_rN2 ops) i) \<inter>
     writes (\<lambda>ops :: 'd fops. loop2_row ops (loop2_rN2 ops) i') = {} \<and>
   writes (\<lambda>ops :: 'd fops. loop1chunk_seq ops lo hi) \<inter> {l. \<exists>k j. l = LocB k j \<or> l = LocJmax k} = {} \<and>
   writes (\<lambda>ops :: 'd fops. loop2chunk_seq ops lo hi) \<inter> {l. \<exists>k j. l = LocB k j \<or> l = LocJmax k} = {}"
proof -
  assume ne: "i \<noteq> i'"
  have A: "writes (\<lambda>ops :: 'd fops. loop1_row ops i) \<inter> writes (\<lambda>ops :: 'd fops. loop1_row ops i') = {}"
    using writes_loop1_row [of i] writes_loop1_row [of i'] ne
    by auto
  have B: "writes (\<lambda>ops :: 'd fops. loop2_row ops (loop2_rN2 ops) i) \<inter>
     writes (\<lambda>ops :: 'd fops. loop2_row ops (loop2_rN2 ops) i') = {}"
    using writes_loop2_row [of loop2_rN2 i] writes_loop2_row [of loop2_rN2 i'] ne
    by auto
  from A B show ?thesis
    by (simp only: writes_loop1_row writes_loop2_row writes_loop1chunk writes_loop2chunk simp_thms)
qed

lemma array_rows_exclusive_example:
  "writes (\<lambda>ops :: real fops. loop1_row ops 0) \<inter> writes (\<lambda>ops :: real fops. loop1_row ops 1) = {} \<and>
   writes (\<lambda>ops :: real fops. loop2_row ops (loop2_rN2 ops) 0) \<inter>
     writes (\<lambda>ops :: real fops. loop2_row ops (loop2_rN2 ops) 1) = {} \<and>
   LocA 0 1 \<in> writes (\<lambda>ops :: real fops. loop1_row ops 0) \<and>
   LocA 1 2 \<in> writes (\<lambda>ops :: real fops. loop1_row ops 1)"
proof -
  have ne: "(0::int) \<noteq> 1" by simp
  have cell: "LocA i (i + 1) \<in> writes (\<lambda>ops :: real fops. loop1_row ops i)"
    if "0 \<le> i" "i + 1 < N" for i
  proof -
    let ?s' = "zero_state\<lparr>a := \<lambda>p. if fst p = i \<and> i < snd p \<and> snd p < N
       then fadd real_ops (a zero_state p) (fcos real_ops (b zero_state p)) else a zero_state p\<rparr>"
    from that have "loop1_row real_ops i zero_state = Some ?s'"
      by (intro loop1_row_closed) (simp add: in_bounds_def)
    moreover from that have "read_loc ?s' (LocA i (i + 1)) \<noteq> read_loc zero_state (LocA i (i + 1))"
      by (simp add: zero_state_def real_ops_def)
    ultimately show ?thesis
      unfolding writes_def by blast
  qed
  from cell [of 0] have 0: "LocA 0 1 \<in> writes (\<lambda>ops :: real fops. loop1_row ops 0)"
    by (simp add: N_def)
  from cell [of 1] have 1: "LocA 1 2 \<in> writes (\<lambda>ops :: real fops. loop1_row ops 1)"
    by (simp add: N_def)
  from array_rows_exclusive [OF ne] 0 1 show ?thesis
    by blast
qed

text \<open>
  The iterations on the memory with the counters compute on the arrays what \<open>loop1_row\<close>
  and \<open>loop2_row\<close> compute.
\<close>

lemma loop1_j_mem_refines:
  "loop1_j_mem ops i m =
     map_option (\<lambda>s'. m\<lparr>arrays := s', var_j := min (var_j m) i\<rparr>)
       (for_down (var_j m) i (loop1_body ops i) (arrays m))"
proof (induction ops i m rule: loop1_j_mem.induct)
  case (1 ops i m)
  show ?case
  proof (cases "var_j m > i")
    case True
    show ?thesis
    proof (cases "loop1_body ops i (var_j m) (arrays m)")
      case None
      with True show ?thesis
        by (simp add: loop1_j_mem.simps [of ops i m] for_down.simps [of "var_j m" i])
    next
      case (Some s')
      from True have "min (var_j m - 1) i = i" "min (var_j m) i = i"
        by simp_all
      with "1.IH" [OF True Some] True Some show ?thesis
        by (simp add: loop1_j_mem.simps [of ops i m] for_down.simps [of "var_j m" i]
            option.map_comp o_def)
    qed
  next
    case False
    then show ?thesis
      by (simp add: loop1_j_mem.simps [of ops i m] for_down.simps [of "var_j m" i] min_def)
  qed
qed

lemma loop1_row_mem_refines:
  "loop1_row_mem ops i m =
     map_option (\<lambda>s'. m\<lparr>arrays := s', var_j := min (N - 1) i\<rparr>) (loop1_row ops i (arrays m))"
  by (simp add: loop1_row_mem_def loop1_j_mem_refines loop1_row_def)

lemma loop2_k_mem_refines:
  "loop2_k_mem ops r i m =
     map_option (\<lambda>s'. m\<lparr>arrays := s', var_k := max (var_k m) (var_j m)\<rparr>)
       (for_up (var_k m) (var_j m) (loop2_body ops r i (var_j m)) (arrays m))"
proof (induction ops r i m rule: loop2_k_mem.induct)
  case (1 ops r i m)
  show ?case
  proof (cases "var_k m < var_j m")
    case True
    show ?thesis
    proof (cases "loop2_body ops r i (var_j m) (var_k m) (arrays m)")
      case None
      with True show ?thesis
        by (simp add: loop2_k_mem.simps [of ops r i m] for_up.simps [of "var_k m" "var_j m"])
    next
      case (Some s')
      from True have "max (var_k m + 1) (var_j m) = var_j m" "max (var_k m) (var_j m) = var_j m"
        by simp_all
      with "1.IH" [OF True Some] True Some show ?thesis
        by (simp add: loop2_k_mem.simps [of ops r i m] for_up.simps [of "var_k m" "var_j m"]
            option.map_comp o_def)
    qed
  next
    case False
    then show ?thesis
      by (simp add: loop2_k_mem.simps [of ops r i m] for_up.simps [of "var_k m" "var_j m"] max_def)
  qed
qed

lemma loop2_j_mem_refines:
  "map_option arrays (loop2_j_mem ops r i m) = loop2_j ops r i (var_j m) (arrays m)"
proof (induction ops r i m rule: loop2_j_mem.induct)
  case (1 ops r i m)
  show ?case
  proof (cases "rd1 (jmax (arrays m)) i")
    case None
    then show ?thesis
      by (simp add: loop2_j_mem.simps [of ops r i m] loop2_j.simps [of ops r i "var_j m"])
  next
    case (Some bound)
    show ?thesis
    proof (cases "var_j m < bound")
      case True
      show ?thesis
      proof (cases "for_up 0 (var_j m) (loop2_body ops r i (var_j m)) (arrays m)")
        case None
        with Some True show ?thesis
          by (simp add: loop2_j_mem.simps [of ops r i m] loop2_j.simps [of ops r i "var_j m"]
              loop2_k_mem_refines)
      next
        case inner: (Some s')
        let ?m' = "m\<lparr>var_k := 0, arrays := s', var_k := max 0 (var_j m)\<rparr>"
        have k: "loop2_k_mem ops r i (m\<lparr>var_k := 0\<rparr>) = Some ?m'"
          using inner by (simp add: loop2_k_mem_refines)
        from "1.IH" [OF Some True k] Some True inner k show ?thesis
          by (simp add: loop2_j_mem.simps [of ops r i m] loop2_j.simps [of ops r i "var_j m"])
      qed
    next
      case False
      with Some show ?thesis
        by (simp add: loop2_j_mem.simps [of ops r i m] loop2_j.simps [of ops r i "var_j m"])
    qed
  qed
qed

lemma loop2_row_mem_refines:
  "map_option arrays (loop2_row_mem ops r i m) = loop2_row ops r i (arrays m)"
  using loop2_j_mem_refines [of ops r i "m\<lparr>var_j := 0\<rparr>"]
  by (simp add: loop2_row_mem_def loop2_row_def)

lemma loop1_row_mem_writes_j:
  assumes "in_bounds i"
  shows "VarJ \<in> writes_mem (\<lambda>ops :: real fops. loop1_row_mem ops i)"
proof -
  let ?m = "\<lparr>arrays = zero_state, var_j = i + 1, var_k = 0\<rparr>"
  from assms obtain s' where "loop1_row real_ops i zero_state = Some s'"
    using loop1_row_closed [of i real_ops zero_state] by blast
  then have run: "loop1_row_mem real_ops i ?m = Some (?m\<lparr>arrays := s', var_j := min (N - 1) i\<rparr>)"
    by (simp add: loop1_row_mem_refines)
  from assms have "read_mloc (?m\<lparr>arrays := s', var_j := min (N - 1) i\<rparr>) VarJ \<noteq> read_mloc ?m VarJ"
    by (simp add: in_bounds_def)
  with run show ?thesis
    unfolding writes_mem_def by blast
qed

lemma loop2_row_mem_writes_j_k:
  assumes "in_bounds i"
  shows "VarJ \<in> writes_mem (\<lambda>ops :: real fops. loop2_row_mem ops (loop2_rN2 ops) i) \<and>
    VarK \<in> writes_mem (\<lambda>ops :: real fops. loop2_row_mem ops (loop2_rN2 ops) i)"
proof -
  let ?m = "\<lparr>arrays = zero_state\<lparr>jmax := \<lambda>i. 1\<rparr>, var_j = 5, var_k = 7\<rparr>"
  let ?m' = "\<lparr>arrays = zero_state\<lparr>jmax := \<lambda>i. 1\<rparr>, var_j = 1, var_k = 0\<rparr>"
  from assms have run: "loop2_row_mem real_ops (loop2_rN2 real_ops) i ?m = Some ?m'"
    by (simp add: loop2_row_mem_def loop2_j_mem.simps loop2_k_mem.simps rd1_def)
  have "read_mloc ?m' VarJ \<noteq> read_mloc ?m VarJ" "read_mloc ?m' VarK \<noteq> read_mloc ?m VarK"
    by simp_all
  with run show ?thesis
    unfolding writes_mem_def by blast
qed

text \<open>
  C7. The rows are not exclusive on the memory that the threads share: the iterations of
  Kernel A for the outer indices 0 and 1 both write the counter \<open>j\<close>, and the iterations
  of Kernel B for 0 and 1 both write \<open>j\<close> and both write \<open>k\<close>. The sets of locations
  written for two distinct outer indices are not disjoint.
\<close>

theorem shared_counters_written:
  "VarJ \<in> writes_mem (\<lambda>ops :: real fops. loop1_row_mem ops 0) \<inter>
           writes_mem (\<lambda>ops :: real fops. loop1_row_mem ops 1) \<and>
   VarJ \<in> writes_mem (\<lambda>ops :: real fops. loop2_row_mem ops (loop2_rN2 ops) 0) \<inter>
           writes_mem (\<lambda>ops :: real fops. loop2_row_mem ops (loop2_rN2 ops) 1) \<and>
   VarK \<in> writes_mem (\<lambda>ops :: real fops. loop2_row_mem ops (loop2_rN2 ops) 0) \<inter>
           writes_mem (\<lambda>ops :: real fops. loop2_row_mem ops (loop2_rN2 ops) 1)"
proof -
  have "in_bounds 0" "in_bounds 1"
    by (simp_all add: in_bounds_def N_def)
  then show ?thesis
    using loop1_row_mem_writes_j loop2_row_mem_writes_j_k by blast
qed

section \<open>The checksums in exact arithmetic\<close>

text \<open>
  In exact arithmetic the checksums are sums over index sets; after \<open>n\<close> runs of a loop
  nest by one thread, from the arrays as the initialisation leaves them, they are \<open>n\<close>
  times the sums of the specification.
\<close>

lemma foldl_plus_sum_list: "foldl (\<lambda>x k. x + f k) x ks = x + sum_list (map f ks)" for x :: real
  by (induction ks arbitrary: x) simp_all

lemma sum_list_upto: "sum_list (map f [lo..hi]) = sum f {lo..hi}" for f :: "int \<Rightarrow> real"
  using sum_list_distinct_conv_sum_set [of "[lo..hi]" f] by simp

lemma funpow_add_real: "((\<lambda>x. x + d) ^^ n) x = x + real n * d" for x d :: real
  by (induction n) (simp_all add: algebra_simps)

lemma kernel_B_acc_real:
  "kernel_B_acc real_ops r s i x =
     x + (\<Sum>j\<in>{0..jmax s i - 1}. \<Sum>k\<in>{0..j - 1}. real_of_int (k + 1) * ln (b s (i, j)) * r)"
proof -
  let ?t = "\<lambda>j k. real_of_int (k + 1) * ln (b s (i, j)) * r"
  have inner: "foldl (\<lambda>x (j, k). x + t j k) x (map (Pair j) ks) = x + sum_list (map (t j) ks)"
    for t :: "int \<Rightarrow> int \<Rightarrow> real" and x j ks
    by (induction ks arbitrary: x) simp_all
  have outer: "foldl (\<lambda>x (j, k). x + t j k) x (concat (map (\<lambda>j. map (Pair j) [0..j - 1]) js)) =
      x + sum_list (map (\<lambda>j. sum_list (map (t j) [0..j - 1])) js)"
    for t :: "int \<Rightarrow> int \<Rightarrow> real" and x js
    by (induction js arbitrary: x) (simp_all add: inner)
  have "kernel_B_acc real_ops r s i x =
     foldl (\<lambda>x (j, k). x + ?t j k) x (concat (map (\<lambda>j. map (Pair j) [0..j - 1]) [0..jmax s i - 1]))"
    by (simp add: kernel_B_acc_def real_ops_def)
  also have "\<dots> = x + sum_list (map (\<lambda>j. sum_list (map (?t j) [0..j - 1])) [0..jmax s i - 1])"
    by (rule outer [of ?t])
  also have "\<dots> = x + (\<Sum>j\<in>{0..jmax s i - 1}. \<Sum>k\<in>{0..j - 1}. ?t j k)"
    by (simp only: sum_list_upto)
  finally show ?thesis .
qed

lemma valid1_real:
  "valid1 real_ops s = Some (\<Sum>i\<in>{0..N - 1}. \<Sum>j\<in>{0..N - 1}. a s (i, j))"
proof -
  have "foldl (\<lambda>x i. foldl (\<lambda>x j. x + a s (i, j)) x [0..N - 1]) x rows =
     x + sum_list (map (\<lambda>i. \<Sum>j\<in>{0..N - 1}. a s (i, j)) rows)" for x rows
    by (induction rows arbitrary: x) (simp_all add: foldl_plus_sum_list sum_list_upto)
  then show ?thesis
    by (simp add: valid1_closed real_ops_def sum_list_upto)
qed

lemma valid2_real: "valid2 real_ops s = Some (\<Sum>i\<in>{0..N - 1}. c s i)"
  by (simp add: valid2_closed real_ops_def foldl_plus_sum_list sum_list_upto)

lemma upper_triangle:
  fixes g :: "int \<Rightarrow> real"
  assumes "0 \<le> i"
  shows "(\<Sum>j\<in>{0..N - 1}. if i < j then g j else 0) = (\<Sum>j\<in>{i + 1..N - 1}. g j)"
proof -
  have "(\<Sum>j\<in>{0..N - 1}. if i < j then g j else 0) = sum g ({0..N - 1} \<inter> {j. i < j})"
    using sum.inter_restrict [of "{0..N - 1}" g "{j. i < j}"] by simp
  also from assms have "{0..N - 1} \<inter> {j. i < j} = {i + 1..N - 1}"
    by auto
  finally show ?thesis .
qed

lemma upto_int_set: "{lo..hi - 1} = {lo..<hi}" for lo hi :: int
  by auto

lemma kernel_A_checksum:
  assumes init: "\<forall>i j. in_bounds i \<and> in_bounds j \<longrightarrow>
      a s (i, j) = 0 \<and> b s (i, j) = 3.142 * real_of_int (i + j)"
  shows "valid1 real_ops (kernel_A_calls real_ops 0 N n s) =
     Some (real n * (\<Sum>i\<in>{0..<N}. \<Sum>j\<in>{i + 1..<N}. cos (3.142 * real_of_int (i + j))))"
proof -
  let ?g = "\<lambda>i j. real n * cos (3.142 * real_of_int (i + j))"
  have cell: "a (kernel_A_calls real_ops 0 N n s) (i, j) = (if i < j then ?g i j else 0)"
    if "i \<in> {0..N - 1}" "j \<in> {0..N - 1}" for i j
  proof -
    from that have ib: "in_bounds i \<and> in_bounds j"
      by (simp add: in_bounds_def)
    with init have a0: "a s (i, j) = 0" and b0: "b s (i, j) = 3.142 * real_of_int (i + j)"
      by blast+
    have fp: "((\<lambda>x. fadd real_ops x (fcos real_ops y)) ^^ n) x = x + real n * cos y" for x y
      using funpow_add_real [where d = "cos y" and n = n and x = x] by (simp add: real_ops_def)
    from ib have "a (kernel_A_calls real_ops 0 N n s) (i, j) =
        (if i < j then ((\<lambda>x. fadd real_ops x (fcos real_ops (b s (i, j)))) ^^ n) (a s (i, j))
         else a s (i, j))"
      by (simp add: kernel_A_calls_def in_bounds_def)
    also have "\<dots> = (if i < j then ?g i j else 0)"
      by (simp only: fp a0 b0 add_0)
    finally show ?thesis .
  qed
  have "(\<Sum>i\<in>{0..N - 1}. \<Sum>j\<in>{0..N - 1}. a (kernel_A_calls real_ops 0 N n s) (i, j)) =
      (\<Sum>i\<in>{0..N - 1}. \<Sum>j\<in>{0..N - 1}. if i < j then ?g i j else 0)"
    by (intro sum.cong refl cell)
  also have "\<dots> = (\<Sum>i\<in>{0..N - 1}. \<Sum>j\<in>{i + 1..N - 1}. ?g i j)"
    by (intro sum.cong refl upper_triangle) simp
  also have "\<dots> = real n * (\<Sum>i\<in>{0..<N}. \<Sum>j\<in>{i + 1..<N}. cos (3.142 * real_of_int (i + j)))"
    by (simp only: upto_int_set sum_distrib_left)
  finally show ?thesis
    by (simp only: valid1_real)
qed

lemma kernel_B_checksum:
  assumes cj: "\<forall>i. in_bounds i \<longrightarrow> c s i = 0 \<and> jmax s i = jmax_shape i"
    and bs: "\<forall>i j. in_bounds i \<and> in_bounds j \<longrightarrow>
      b s (i, j) = real_of_int (i * j + 1) / (real_of_int N)\<^sup>2"
  shows "valid2 real_ops (kernel_B_calls real_ops 0 N n s) =
     Some (real n * (\<Sum>i\<in>{0..<N}. \<Sum>j\<in>{0..<jmax_shape i}. \<Sum>k\<in>{0..<j}.
       real_of_int (k + 1) * ln (real_of_int (i * j + 1) / (real_of_int N)\<^sup>2) / (real_of_int N)\<^sup>2))"
proof -
  let ?t = "\<lambda>i j k. real_of_int (k + 1) * ln (real_of_int (i * j + 1) / (real_of_int N)\<^sup>2) / (real_of_int N)\<^sup>2"
  let ?T = "\<lambda>i. \<Sum>j\<in>{0..jmax_shape i - 1}. \<Sum>k\<in>{0..j - 1}. ?t i j k"
  have r: "loop2_rN2 real_ops = 1 / (real_of_int N)\<^sup>2"
    by (simp add: loop2_rN2_def real_ops_def power2_eq_square)
  have acc: "kernel_B_acc real_ops (loop2_rN2 real_ops) s i = (\<lambda>x. x + ?T i)" if "i \<in> {0..N - 1}" for i
  proof
    fix x
    from that have ib: "in_bounds i"
      by (simp add: in_bounds_def)
    with cj have jm: "jmax s i = jmax_shape i"
      by blast
    have "(\<Sum>j\<in>{0..jmax_shape i - 1}. \<Sum>k\<in>{0..j - 1}.
         real_of_int (k + 1) * ln (b s (i, j)) * (1 / (real_of_int N)\<^sup>2)) = ?T i"
    proof (intro sum.cong refl)
      fix j k
      assume "j \<in> {0..jmax_shape i - 1}"
      then have "in_bounds j"
        by (auto simp: in_bounds_def jmax_shape_def N_def split: if_splits)
      with ib bs have "b s (i, j) = real_of_int (i * j + 1) / (real_of_int N)\<^sup>2"
        by blast
      then show "real_of_int (k + 1) * ln (b s (i, j)) * (1 / (real_of_int N)\<^sup>2) = ?t i j k"
        by simp
    qed
    then show "kernel_B_acc real_ops (loop2_rN2 real_ops) s i x = x + ?T i"
      by (simp only: kernel_B_acc_real jm r)
  qed
  have cell: "c (kernel_B_calls real_ops 0 N n s) i = real n * ?T i" if "i \<in> {0..N - 1}" for i
  proof -
    from that have ib: "in_bounds i"
      by (simp add: in_bounds_def)
    with cj have "c s i = 0"
      by blast
    with that ib show ?thesis
      by (simp add: kernel_B_calls_def acc funpow_add_real in_bounds_def)
  qed
  have "(\<Sum>i\<in>{0..N - 1}. c (kernel_B_calls real_ops 0 N n s) i) = (\<Sum>i\<in>{0..N - 1}. real n * ?T i)"
    by (intro sum.cong refl cell)
  also have "\<dots> = real n * (\<Sum>i\<in>{0..<N}. \<Sum>j\<in>{0..<jmax_shape i}. \<Sum>k\<in>{0..<j}. ?t i j k)"
    by (simp only: upto_int_set sum_distrib_left)
  finally show ?thesis
    by (simp only: valid2_real)
qed

section \<open>Runs of the parallel region\<close>

lemma run_threads_append:
  "run_threads step (xs @ ys) ts m =
     (case run_threads step xs ts m of None \<Rightarrow> None | Some (ts', m') \<Rightarrow> run_threads step ys ts' m')"
  by (induction xs arbitrary: ts m) (auto split: option.splits)

lemma run_threads_then:
  "run_threads step xs ts m = Some (ts', m') \<Longrightarrow> run_threads step ys ts' m' = r \<Longrightarrow>
   run_threads step (xs @ ys) ts m = r"
  by (simp add: run_threads_append)

lemma run_threads_idle:
  assumes idle: "\<And>t m. fin t \<Longrightarrow> step t m = Some (t, m)"
    and fin: "list_all fin ts"
  shows "run_threads step sched ts m = Some (ts, m)"
proof (induction sched)
  case Nil
  show ?case by simp
next
  case (Cons n sched)
  show ?case
  proof (cases "n < length ts")
    case True
    with fin have "fin (ts ! n)"
      by (simp add: list_all_length)
    then have "step (ts ! n) m = Some (ts ! n, m)"
      by (rule idle)
    with True Cons.IH show ?thesis by simp
  next
    case False
    with Cons.IH show ?thesis by simp
  qed
qed

lemma distribute_empty: "list_all (\<lambda>rows. rows = []) (distribute n asg lo lo)"
  by (simp add: distribute_def list_all_iff)

lemma loop1chunk_empty: "loop1chunk ops n asg sched lo lo s = Some s"
proof -
  let ?ts = "map (\<lambda>rows. (rows, At_j_init)) (distribute n asg lo lo)"
  have fin: "list_all (\<lambda>t. fst t = []) ?ts"
    using distribute_empty [of n asg lo] by (simp add: list_all_iff)
  have "run_threads (loop1_step ops) sched ?ts m = Some (?ts, m)" for m
  proof (rule run_threads_idle [where fin = "\<lambda>t. fst t = []"])
    show "loop1_step ops t m = Some (t, m)" if "fst t = []" for t and m :: "'a mem"
      using that by (cases t) simp
    show "list_all (\<lambda>t. fst t = []) ?ts"
      by (rule fin)
  qed
  with fin show ?thesis
    by (simp add: loop1chunk_def)
qed

lemma loop2chunk_empty: "loop2chunk ops n asg sched lo lo s = Some s"
proof -
  let ?ts = "map (\<lambda>rows. (rows, At2_j_init)) (distribute n asg lo lo)"
  have fin: "list_all (\<lambda>t. fst t = []) ?ts"
    using distribute_empty [of n asg lo] by (simp add: list_all_iff)
  have "run_threads (loop2_step ops r) sched ?ts m = Some (?ts, m)" for m r
  proof (rule run_threads_idle [where fin = "\<lambda>t. fst t = []"])
    show "loop2_step ops r t m = Some (t, m)" if "fst t = []" for t and m :: "'a mem"
      using that by (cases t) simp
    show "list_all (\<lambda>t. fst t = []) ?ts"
      by (rule fin)
  qed
  with fin show ?thesis
    by (simp add: loop2chunk_def)
qed

subsection \<open>A team of one thread\<close>

text \<open>
  A thread that steps alone runs its iterations as \<open>loop1_row_mem\<close> and \<open>loop2_row_mem\<close>
  do. So what the loop nest without the directive returns, the function of the program
  returns when the team has one thread.
\<close>

lemma solo_loop1_j:
  "loop1_j_mem ops i m = Some m' \<Longrightarrow> n < length ts \<Longrightarrow> ts ! n = (i # rows, At_j_test) \<Longrightarrow>
   \<exists>k. run_threads (loop1_step ops) (replicate k n) ts m = Some (ts[n := (rows, At_j_init)], m')"
proof (induction ops i m arbitrary: ts rule: loop1_j_mem.induct)
  case (1 ops i m)
  show ?case
  proof (cases "var_j m > i")
    case True
    with "1.prems"(1) obtain s' where body: "loop1_body ops i (var_j m) (arrays m) = Some s'"
      and rest: "loop1_j_mem ops i (m\<lparr>arrays := s', var_j := var_j m - 1\<rparr>) = Some m'"
      by (auto simp: loop1_j_mem.simps [of ops i m] split: option.splits)
    from "1.IH" [OF True body rest "1.prems"(2,3)] obtain k where
      k: "run_threads (loop1_step ops) (replicate k n) ts (m\<lparr>arrays := s', var_j := var_j m - 1\<rparr>) =
        Some (ts[n := (rows, At_j_init)], m')"
      by blast
    have "run_threads (loop1_step ops) (replicate 3 n) ts m =
        Some (ts, m\<lparr>arrays := s', var_j := var_j m - 1\<rparr>)"
      using True body "1.prems"(2,3)
      by (simp add: numeral_3_eq_3 list_update_same_conv [THEN iffD2])
    with k have "run_threads (loop1_step ops) (replicate 3 n @ replicate k n) ts m =
        Some (ts[n := (rows, At_j_init)], m')"
      by (simp add: run_threads_append)
    then have "run_threads (loop1_step ops) (replicate (3 + k) n) ts m =
        Some (ts[n := (rows, At_j_init)], m')"
      by (simp only: replicate_add)
    then show ?thesis ..
  next
    case False
    with "1.prems" have "run_threads (loop1_step ops) (replicate 1 n) ts m =
        Some (ts[n := (rows, At_j_init)], m')"
      by (simp add: loop1_j_mem.simps [of ops i m])
    then show ?thesis ..
  qed
qed

lemma solo_loop1_row:
  assumes run: "loop1_row_mem ops i m = Some m'" and n: "n < length ts"
    and at: "ts ! n = (i # rows, At_j_init)"
  shows "\<exists>k. run_threads (loop1_step ops) (replicate k n) ts m = Some (ts[n := (rows, At_j_init)], m')"
proof -
  let ?ts1 = "ts[n := (i # rows, At_j_test)]"
  from run have "loop1_j_mem ops i (m\<lparr>var_j := N - 1\<rparr>) = Some m'"
    by (simp add: loop1_row_mem_def)
  moreover from n have "n < length ?ts1" "?ts1 ! n = (i # rows, At_j_test)"
    by simp_all
  ultimately obtain k where
    "run_threads (loop1_step ops) (replicate k n) ?ts1 (m\<lparr>var_j := N - 1\<rparr>) =
      Some (?ts1[n := (rows, At_j_init)], m')"
    using solo_loop1_j by blast
  with n at have "run_threads (loop1_step ops) (replicate (Suc k) n) ts m =
      Some (ts[n := (rows, At_j_init)], m')"
    by simp
  then show ?thesis ..
qed

lemma solo_loop1_rows:
  "run_rows (loop1_row_mem ops) rs m = Some m' \<Longrightarrow> n < length ts \<Longrightarrow>
   ts ! n = (rs @ rest, At_j_init) \<Longrightarrow>
   \<exists>k. run_threads (loop1_step ops) (replicate k n) ts m = Some (ts[n := (rest, At_j_init)], m')"
proof (induction rs arbitrary: ts m)
  case Nil
  then have "run_threads (loop1_step ops) (replicate 0 n) ts m = Some (ts[n := (rest, At_j_init)], m')"
    by (simp add: list_update_same_conv [THEN iffD2])
  then show ?case ..
next
  case (Cons i rs)
  from Cons.prems(1) obtain m1 where row: "loop1_row_mem ops i m = Some m1"
    and rest: "run_rows (loop1_row_mem ops) rs m1 = Some m'"
    by (auto split: option.splits)
  from Cons.prems(3) have "ts ! n = (i # (rs @ rest), At_j_init)"
    by simp
  from solo_loop1_row [OF row Cons.prems(2) this] obtain k1 where
    k1: "run_threads (loop1_step ops) (replicate k1 n) ts m = Some (ts[n := (rs @ rest, At_j_init)], m1)"
    by blast
  let ?ts1 = "ts[n := (rs @ rest, At_j_init)]"
  from Cons.prems(2) have "n < length ?ts1" "?ts1 ! n = (rs @ rest, At_j_init)"
    by simp_all
  from Cons.IH [OF rest this] obtain k2 where
    k2: "run_threads (loop1_step ops) (replicate k2 n) ?ts1 m1 = Some (?ts1[n := (rest, At_j_init)], m')"
    by blast
  from k1 k2 have "run_threads (loop1_step ops) (replicate k1 n @ replicate k2 n) ts m =
      Some (ts[n := (rest, At_j_init)], m')"
    by (simp add: run_threads_append)
  then have "run_threads (loop1_step ops) (replicate (k1 + k2) n) ts m =
      Some (ts[n := (rest, At_j_init)], m')"
    by (simp only: replicate_add)
  then show ?case ..
qed

lemma run_rows_mem_arrays:
  "run_rows (loop1_row ops) rs (arrays m) = Some s' \<Longrightarrow>
   \<exists>m'. run_rows (loop1_row_mem ops) rs m = Some m' \<and> arrays m' = s'"
proof (induction rs arbitrary: m)
  case Nil
  then show ?case by simp
next
  case (Cons i rs)
  from Cons.prems obtain s1 where row: "loop1_row ops i (arrays m) = Some s1"
    and rest: "run_rows (loop1_row ops) rs s1 = Some s'"
    by (auto split: option.splits)
  let ?m1 = "m\<lparr>arrays := s1, var_j := min (N - 1) i\<rparr>"
  from row have 1: "loop1_row_mem ops i m = Some ?m1"
    by (simp add: loop1_row_mem_refines)
  from rest have "run_rows (loop1_row ops) rs (arrays ?m1) = Some s'"
    by simp
  from Cons.IH [OF this] 1 show ?case
    by simp
qed

lemma distribute_1: "distribute (Suc 0) asg lo hi = [[lo..hi - 1]]"
  by (simp add: distribute_def)

lemma loop1chunk_one_thread:
  assumes "loop1chunk_seq ops lo hi s = Some s'"
  shows "\<exists>sched. loop1chunk ops 1 asg sched lo hi s = Some s'"
proof -
  let ?m = "\<lparr>arrays = s, var_j = 0, var_k = 0\<rparr>"
  let ?ts = "[([lo..hi - 1], At_j_init)]"
  from assms have "run_rows (loop1_row ops) [lo..hi - 1] (arrays ?m) = Some s'"
    by (simp add: loop1chunk_seq_def for_up_run_rows)
  then obtain m' where run: "run_rows (loop1_row_mem ops) [lo..hi - 1] ?m = Some m'"
    and arr: "arrays m' = s'"
    using run_rows_mem_arrays by blast
  have "(0::nat) < length ?ts" "?ts ! 0 = ([lo..hi - 1] @ [], At_j_init)"
    by simp_all
  from solo_loop1_rows [OF run this] obtain k where
    "run_threads (loop1_step ops) (replicate k 0) ?ts ?m = Some (?ts[0 := ([], At_j_init)], m')"
    by blast
  with arr have "loop1chunk ops 1 asg (replicate k 0) lo hi s = Some s'"
    by (simp add: loop1chunk_def distribute_1)
  then show ?thesis ..
qed

lemma solo_loop2_k:
  "loop2_k_mem ops r i m = Some m' \<Longrightarrow> n < length ts \<Longrightarrow> ts ! n = (i # rows, At2_k_test) \<Longrightarrow>
   \<exists>k. run_threads (loop2_step ops r) (replicate k n) ts m = Some (ts[n := (i # rows, At2_j_incr)], m')"
proof (induction ops r i m arbitrary: ts rule: loop2_k_mem.induct)
  case (1 ops r i m)
  show ?case
  proof (cases "var_k m < var_j m")
    case True
    with "1.prems"(1) obtain s' where body: "loop2_body ops r i (var_j m) (var_k m) (arrays m) = Some s'"
      and rest: "loop2_k_mem ops r i (m\<lparr>arrays := s', var_k := var_k m + 1\<rparr>) = Some m'"
      by (auto simp: loop2_k_mem.simps [of ops r i m] split: option.splits)
    from "1.IH" [OF True body rest "1.prems"(2,3)] obtain k where
      k: "run_threads (loop2_step ops r) (replicate k n) ts (m\<lparr>arrays := s', var_k := var_k m + 1\<rparr>) =
        Some (ts[n := (i # rows, At2_j_incr)], m')"
      by blast
    have "run_threads (loop2_step ops r) (replicate 3 n) ts m =
        Some (ts, m\<lparr>arrays := s', var_k := var_k m + 1\<rparr>)"
      using True body "1.prems"(2,3)
      by (simp add: numeral_3_eq_3 list_update_same_conv [THEN iffD2])
    with k have "run_threads (loop2_step ops r) (replicate 3 n @ replicate k n) ts m =
        Some (ts[n := (i # rows, At2_j_incr)], m')"
      by (simp add: run_threads_append)
    then have "run_threads (loop2_step ops r) (replicate (3 + k) n) ts m =
        Some (ts[n := (i # rows, At2_j_incr)], m')"
      by (simp only: replicate_add)
    then show ?thesis ..
  next
    case False
    with "1.prems" have "run_threads (loop2_step ops r) (replicate 1 n) ts m =
        Some (ts[n := (i # rows, At2_j_incr)], m')"
      by (simp add: loop2_k_mem.simps [of ops r i m])
    then show ?thesis ..
  qed
qed

lemma solo_loop2_j:
  "loop2_j_mem ops r i m = Some m' \<Longrightarrow> n < length ts \<Longrightarrow> ts ! n = (i # rows, At2_j_test) \<Longrightarrow>
   \<exists>k. run_threads (loop2_step ops r) (replicate k n) ts m = Some (ts[n := (rows, At2_j_init)], m')"
proof (induction ops r i m arbitrary: ts rule: loop2_j_mem.induct)
  case (1 ops r i m)
  from "1.prems"(1) obtain bound where bound: "rd1 (jmax (arrays m)) i = Some bound"
    by (auto simp: loop2_j_mem.simps [of ops r i m] split: option.splits)
  show ?case
  proof (cases "var_j m < bound")
    case True
    with "1.prems"(1) bound obtain m1 where inner: "loop2_k_mem ops r i (m\<lparr>var_k := 0\<rparr>) = Some m1"
      and rest: "loop2_j_mem ops r i (m1\<lparr>var_j := var_j m1 + 1\<rparr>) = Some m'"
      by (auto simp: loop2_j_mem.simps [of ops r i m] split: option.splits)
    let ?ts1 = "ts[n := (i # rows, At2_k_test)]"
    have first: "run_threads (loop2_step ops r) (replicate 2 n) ts m = Some (?ts1, m\<lparr>var_k := 0\<rparr>)"
      using True bound "1.prems"(2,3) by (simp add: numeral_2_eq_2)
    from "1.prems"(2) have "n < length ?ts1" "?ts1 ! n = (i # rows, At2_k_test)"
      by simp_all
    from solo_loop2_k [OF inner this] obtain k1 where
      k1: "run_threads (loop2_step ops r) (replicate k1 n) ?ts1 (m\<lparr>var_k := 0\<rparr>) =
        Some (?ts1[n := (i # rows, At2_j_incr)], m1)"
      by blast
    let ?ts2 = "ts[n := (i # rows, At2_j_incr)]"
    have incr: "run_threads (loop2_step ops r) (replicate 1 n) ?ts2 m1 =
        Some (ts, m1\<lparr>var_j := var_j m1 + 1\<rparr>)"
      using "1.prems"(2,3) by (simp add: list_update_same_conv [THEN iffD2])
    from "1.IH" [OF bound True inner rest "1.prems"(2,3)] obtain k2 where
      k2: "run_threads (loop2_step ops r) (replicate k2 n) ts (m1\<lparr>var_j := var_j m1 + 1\<rparr>) =
        Some (ts[n := (rows, At2_j_init)], m')"
      by blast
    from k1 have k1': "run_threads (loop2_step ops r) (replicate k1 n) ?ts1 (m\<lparr>var_k := 0\<rparr>) =
        Some (?ts2, m1)"
      by simp
    have
      "run_threads (loop2_step ops r) (replicate 2 n @ replicate k1 n @ replicate 1 n @ replicate k2 n) ts m =
        Some (ts[n := (rows, At2_j_init)], m')"
      by (rule run_threads_then [OF first run_threads_then [OF k1' run_threads_then [OF incr k2]]])
    then have "run_threads (loop2_step ops r) (replicate (2 + (k1 + (1 + k2))) n) ts m =
        Some (ts[n := (rows, At2_j_init)], m')"
      by (simp only: replicate_add)
    then show ?thesis ..
  next
    case False
    with "1.prems" bound have "run_threads (loop2_step ops r) (replicate 1 n) ts m =
        Some (ts[n := (rows, At2_j_init)], m')"
      by (simp add: loop2_j_mem.simps [of ops r i m])
    then show ?thesis ..
  qed
qed

lemma solo_loop2_row:
  assumes run: "loop2_row_mem ops r i m = Some m'" and n: "n < length ts"
    and at: "ts ! n = (i # rows, At2_j_init)"
  shows "\<exists>k. run_threads (loop2_step ops r) (replicate k n) ts m = Some (ts[n := (rows, At2_j_init)], m')"
proof -
  let ?ts1 = "ts[n := (i # rows, At2_j_test)]"
  from run have j: "loop2_j_mem ops r i (m\<lparr>var_j := 0\<rparr>) = Some m'"
    by (simp add: loop2_row_mem_def)
  from n have "n < length ?ts1" "?ts1 ! n = (i # rows, At2_j_test)"
    by simp_all
  from solo_loop2_j [OF j this] obtain k where
    "run_threads (loop2_step ops r) (replicate k n) ?ts1 (m\<lparr>var_j := 0\<rparr>) =
      Some (?ts1[n := (rows, At2_j_init)], m')"
    by blast
  with n at have "run_threads (loop2_step ops r) (replicate (Suc k) n) ts m =
      Some (ts[n := (rows, At2_j_init)], m')"
    by simp
  then show ?thesis ..
qed

lemma solo_loop2_rows:
  "run_rows (loop2_row_mem ops r) rs m = Some m' \<Longrightarrow> n < length ts \<Longrightarrow>
   ts ! n = (rs @ rest, At2_j_init) \<Longrightarrow>
   \<exists>k. run_threads (loop2_step ops r) (replicate k n) ts m = Some (ts[n := (rest, At2_j_init)], m')"
proof (induction rs arbitrary: ts m)
  case Nil
  then have "run_threads (loop2_step ops r) (replicate 0 n) ts m = Some (ts[n := (rest, At2_j_init)], m')"
    by (simp add: list_update_same_conv [THEN iffD2])
  then show ?case ..
next
  case (Cons i rs)
  from Cons.prems(1) obtain m1 where row: "loop2_row_mem ops r i m = Some m1"
    and rest: "run_rows (loop2_row_mem ops r) rs m1 = Some m'"
    by (auto split: option.splits)
  from Cons.prems(3) have "ts ! n = (i # (rs @ rest), At2_j_init)"
    by simp
  from solo_loop2_row [OF row Cons.prems(2) this] obtain k1 where
    k1: "run_threads (loop2_step ops r) (replicate k1 n) ts m = Some (ts[n := (rs @ rest, At2_j_init)], m1)"
    by blast
  let ?ts1 = "ts[n := (rs @ rest, At2_j_init)]"
  from Cons.prems(2) have "n < length ?ts1" "?ts1 ! n = (rs @ rest, At2_j_init)"
    by simp_all
  from Cons.IH [OF rest this] obtain k2 where
    k2: "run_threads (loop2_step ops r) (replicate k2 n) ?ts1 m1 = Some (?ts1[n := (rest, At2_j_init)], m')"
    by blast
  from k1 k2 have "run_threads (loop2_step ops r) (replicate k1 n @ replicate k2 n) ts m =
      Some (ts[n := (rest, At2_j_init)], m')"
    by (simp add: run_threads_append)
  then have "run_threads (loop2_step ops r) (replicate (k1 + k2) n) ts m =
      Some (ts[n := (rest, At2_j_init)], m')"
    by (simp only: replicate_add)
  then show ?case ..
qed

lemma run_rows_mem_arrays2:
  "run_rows (loop2_row ops r) rs (arrays m) = Some s' \<Longrightarrow>
   \<exists>m'. run_rows (loop2_row_mem ops r) rs m = Some m' \<and> arrays m' = s'"
proof (induction rs arbitrary: m)
  case Nil
  then show ?case by simp
next
  case (Cons i rs)
  from Cons.prems obtain s1 where row: "loop2_row ops r i (arrays m) = Some s1"
    and rest: "run_rows (loop2_row ops r) rs s1 = Some s'"
    by (auto split: option.splits)
  from row loop2_row_mem_refines [of ops r i m] obtain m1 where
    1: "loop2_row_mem ops r i m = Some m1" and "arrays m1 = s1"
    by (auto simp: map_option_case split: option.splits)
  with rest have "run_rows (loop2_row ops r) rs (arrays m1) = Some s'"
    by simp
  from Cons.IH [OF this] 1 show ?case
    by simp
qed

lemma loop2chunk_one_thread:
  assumes "loop2chunk_seq ops lo hi s = Some s'"
  shows "\<exists>sched. loop2chunk ops 1 asg sched lo hi s = Some s'"
proof -
  let ?m = "\<lparr>arrays = s, var_j = 0, var_k = 0\<rparr>"
  let ?ts = "[([lo..hi - 1], At2_j_init)]"
  from assms have "run_rows (loop2_row ops (loop2_rN2 ops)) [lo..hi - 1] (arrays ?m) = Some s'"
    by (simp add: loop2chunk_seq_def for_up_run_rows)
  then obtain m' where run: "run_rows (loop2_row_mem ops (loop2_rN2 ops)) [lo..hi - 1] ?m = Some m'"
    and arr: "arrays m' = s'"
    using run_rows_mem_arrays2 [of ops "loop2_rN2 ops" "[lo..hi - 1]" ?m s'] by blast
  have "(0::nat) < length ?ts" "?ts ! 0 = ([lo..hi - 1] @ [], At2_j_init)"
    by simp_all
  from solo_loop2_rows [OF run this] obtain k where
    "run_threads (loop2_step ops (loop2_rN2 ops)) (replicate k 0) ?ts ?m = Some (?ts[0 := ([], At2_j_init)], m')"
    by blast
  with arr have "loop2chunk ops 1 asg (replicate k 0) lo hi s = Some s'"
    by (simp add: loop2chunk_def distribute_1)
  then show ?thesis ..
qed

subsection \<open>Kernel A with two threads\<close>

text \<open>
  \<open>loop1chunk(726, 728)\<close> with thread 0 in row 726 and thread 1 in row 727. When the
  threads run in turn, thread 0 to its end and then thread 1, the call returns what the
  loop nest without the directive returns. Under the interleaving 0 1 0 0 0 1 0 0 0 0 both
  threads first assign \<open>N - 1 = 728\<close> to \<open>j\<close>; thread 0 finds \<open>728 > 726\<close>, updates
  \<open>a[726][728]\<close> and decrements \<open>j\<close> to 727; thread 1 now tests \<open>j > 727\<close>, which fails,
  and row 727 is finished with no cell updated; thread 0 finds \<open>727 > 726\<close>, updates
  \<open>a[726][727]\<close>, decrements \<open>j\<close> to 726 and finishes.
\<close>

lemma distribute_2: "distribute 2 nat 726 728 = [[726], [727]]"
  by code_simp

lemma loop1chunk_interleaved:
  "loop1chunk ops 2 nat [0, 1, 0, 0, 0, 1, 0, 0, 0, 0] 726 728 s =
     Some (s\<lparr>a := (a s)((726, 728) := fadd ops (a s (726, 728)) (fcos ops (b s (726, 728))),
                          (726, 727) := fadd ops (a s (726, 727)) (fcos ops (b s (726, 727))))\<rparr>)"
  by (simp add: loop1chunk_def distribute_2 loop1_body_Some in_bounds_def N_def)

lemma loop1chunk_in_turn:
  "loop1chunk ops 2 nat [0, 0, 0, 0, 0, 0, 0, 0, 1, 1, 1, 1, 1] 726 728 s =
     Some (s\<lparr>a := (a s)((726, 728) := fadd ops (a s (726, 728)) (fcos ops (b s (726, 728))),
                          (726, 727) := fadd ops (a s (726, 727)) (fcos ops (b s (726, 727))),
                          (727, 728) := fadd ops (a s (727, 728)) (fcos ops (b s (727, 728))))\<rparr>)"
  by (simp add: loop1chunk_def distribute_2 loop1_body_Some in_bounds_def N_def)

lemma loop1chunk_in_turn_seq:
  "loop1chunk ops 2 nat [0, 0, 0, 0, 0, 0, 0, 0, 1, 1, 1, 1, 1] 726 728 s = loop1chunk_seq ops 726 728 s"
proof -
  have "loop1chunk_seq ops 726 728 s =
     Some (s\<lparr>a := \<lambda>(i, j). if 726 \<le> i \<and> i < 728 \<and> i < j \<and> j \<le> N - 1
                       then fadd ops (a s (i, j)) (fcos ops (b s (i, j))) else a s (i, j)\<rparr>)"
    by (rule loop1chunk_seq_contract) (simp_all add: N_def)
  also have "(\<lambda>(i, j). if 726 \<le> i \<and> i < 728 \<and> i < j \<and> j \<le> N - 1
                       then fadd ops (a s (i, j)) (fcos ops (b s (i, j))) else a s (i, j)) =
     (a s)((726, 728) := fadd ops (a s (726, 728)) (fcos ops (b s (726, 728))),
           (726, 727) := fadd ops (a s (726, 727)) (fcos ops (b s (726, 727))),
           (727, 728) := fadd ops (a s (727, 728)) (fcos ops (b s (727, 728))))"
    by (auto simp: fun_eq_iff N_def)
  finally show ?thesis
    by (simp only: loop1chunk_in_turn)
qed

text \<open>
  C1. The contract of Kernel A does not hold of \<open>loop1chunk\<close>: the counter \<open>j\<close> is one
  variable for all threads. \<open>loop1chunk(726, 728)\<close>, run by two threads under the
  interleaving above, returns with \<open>a[726][728]\<close> and \<open>a[726][727]\<close> updated and
  \<open>a[727][728]\<close> as it was, for every arithmetic and from every state; the contract has
  \<open>a[727][728] + cos(b[727][728])\<close> there. From the arrays all zero, in exact arithmetic,
  \<open>a[727][728]\<close> is 0 after the call; the contract and the loop nest run by one thread
  have \<open>0 + cos(0) = 1\<close>.
\<close>

theorem kernel_A_contract_broken:
  "loop1chunk ops 2 nat [0, 1, 0, 0, 0, 1, 0, 0, 0, 0] 726 728 s =
     Some (s\<lparr>a := (a s)((726, 728) := fadd ops (a s (726, 728)) (fcos ops (b s (726, 728))),
                          (726, 727) := fadd ops (a s (726, 727)) (fcos ops (b s (726, 727))))\<rparr>) \<and>
   (\<exists>s'. loop1chunk real_ops 2 nat [0, 1, 0, 0, 0, 1, 0, 0, 0, 0] 726 728 zero_state = Some s' \<and>
      a s' (727, 728) = 0) \<and>
   (\<exists>s'. loop1chunk_seq real_ops 726 728 zero_state = Some s' \<and> a s' (727, 728) = 1) \<and>
   fadd real_ops (a zero_state (727, 728)) (fcos real_ops (b zero_state (727, 728))) = 1"
proof -
  have "\<exists>s'. loop1chunk_seq real_ops 726 728 zero_state = Some s' \<and> a s' (727, 728) = 1"
    unfolding loop1chunk_in_turn_seq [symmetric] loop1chunk_in_turn
    by (simp add: zero_state_def real_ops_def)
  moreover have "\<exists>s'. loop1chunk real_ops 2 nat [0, 1, 0, 0, 0, 1, 0, 0, 0, 0] 726 728 zero_state = Some s' \<and>
      a s' (727, 728) = 0"
    unfolding loop1chunk_interleaved by (simp add: zero_state_def)
  moreover have "fadd real_ops (a zero_state (727, 728)) (fcos real_ops (b zero_state (727, 728))) = 1"
    by (simp add: zero_state_def real_ops_def)
  ultimately show ?thesis
    using loop1chunk_interleaved [of ops s] by blast
qed

subsection \<open>Kernel B with two threads\<close>

text \<open>
  \<open>loop2chunk(0, 2)\<close> with \<open>jmax[i] = 2\<close>, thread 0 in row 0 and thread 1 in row 1.
  Under the interleaving 0 1 0 0 0 0 0 0 0 0 0 0 0 0 1 both threads first assign 0 to \<open>j\<close>;
  then thread 0 runs its whole row, which adds \<open>1 * log(b[0][1]) * rN2\<close> to \<open>c[0]\<close> and
  leaves \<open>j = 2\<close>; thread 1 now tests \<open>j < jmax[1]\<close>, which fails, and row 1 is finished
  with \<open>c[1]\<close> not updated.
\<close>

lemma distribute_2B: "distribute 2 nat 0 2 = [[0], [1]]"
  by code_simp

lemma loop2chunk_interleaved:
  "loop2chunk ops 2 nat [0, 1, 0, 0, 0, 0, 0, 0, 0, 0, 0, 0, 0, 0, 1] 0 2 (s\<lparr>jmax := \<lambda>i. 2\<rparr>) =
     Some (s\<lparr>jmax := \<lambda>i. 2,
             c := (c s)(0 := fadd ops (c s 0)
               (fmul ops (fmul ops (rnd ops 1) (flog ops (b s (0, 1)))) (loop2_rN2 ops)))\<rparr>)"
  by (simp add: loop2chunk_def distribute_2B loop2_body_Some in_bounds_def N_def rd1_def)

lemma loop2chunk_in_turn:
  "loop2chunk ops 2 nat [0, 0, 0, 0, 0, 0, 0, 0, 0, 0, 0, 0, 0, 1, 1, 1, 1, 1, 1, 1, 1, 1, 1, 1, 1, 1] 0 2
     (s\<lparr>jmax := \<lambda>i. 2\<rparr>) =
     Some (s\<lparr>jmax := \<lambda>i. 2,
             c := (c s)(0 := fadd ops (c s 0)
                 (fmul ops (fmul ops (rnd ops 1) (flog ops (b s (0, 1)))) (loop2_rN2 ops)),
               1 := fadd ops (c s 1)
                 (fmul ops (fmul ops (rnd ops 1) (flog ops (b s (1, 1)))) (loop2_rN2 ops)))\<rparr>)"
  by (simp add: loop2chunk_def distribute_2B loop2_body_Some in_bounds_def N_def rd1_def)

lemma kernel_B_row_two:
  "kernel_B_row ops r (s\<lparr>jmax := \<lambda>i. 2\<rparr>) i =
     fadd ops (c s i) (fmul ops (fmul ops (rnd ops 1) (flog ops (b s (i, 1)))) r)"
  by (simp add: kernel_B_row_def kernel_B_acc_def upto_rec1)

lemma loop2chunk_in_turn_seq:
  "loop2chunk ops 2 nat [0, 0, 0, 0, 0, 0, 0, 0, 0, 0, 0, 0, 0, 1, 1, 1, 1, 1, 1, 1, 1, 1, 1, 1, 1, 1] 0 2
     (s\<lparr>jmax := \<lambda>i. 2\<rparr>) = loop2chunk_seq ops 0 2 (s\<lparr>jmax := \<lambda>i. 2\<rparr>)"
proof -
  let ?s = "s\<lparr>jmax := \<lambda>i. 2\<rparr>"
  have "loop2chunk_seq ops 0 2 ?s =
     Some (?s\<lparr>c := \<lambda>i. if 0 \<le> i \<and> i < 2
        then kernel_B_row ops (loop2_rN2 ops) ?s i else c ?s i\<rparr>)"
    by (rule loop2chunk_seq_contract) (simp_all add: N_def)
  also have "(\<lambda>i. if 0 \<le> i \<and> i < 2 then kernel_B_row ops (loop2_rN2 ops) ?s i else c ?s i) =
     (c s)(0 := fadd ops (c s 0)
                 (fmul ops (fmul ops (rnd ops 1) (flog ops (b s (0, 1)))) (loop2_rN2 ops)),
               1 := fadd ops (c s 1)
                 (fmul ops (fmul ops (rnd ops 1) (flog ops (b s (1, 1)))) (loop2_rN2 ops)))"
    by (auto simp: fun_eq_iff kernel_B_row_two)
  finally show ?thesis
    by (simp only: loop2chunk_in_turn state.simps)
qed

lemma test_state_jmax: "test_state\<lparr>jmax := \<lambda>i. 2\<rparr> = test_state"
  by (simp add: test_state_def)

text \<open>
  C2. The contract of Kernel B does not hold of \<open>loop2chunk\<close>: the counters \<open>j\<close> and \<open>k\<close>
  are the same variables for all threads. \<open>loop2chunk(0, 2)\<close> with \<open>jmax[i] = 2\<close>, run by
  two threads under the interleaving above, returns with \<open>c[0]\<close> updated and \<open>c[1]\<close> as it
  was, for every arithmetic and from every state with these bounds; the contract adds
  \<open>1 * log(b[1][1]) * rN2\<close> to \<open>c[1]\<close>. With \<open>b\<close> equal to \<open>e\<close> everywhere and \<open>c\<close> zero, in
  exact arithmetic, \<open>c[1]\<close> is 0 after the call; the contract and the loop nest run by one
  thread have \<open>1/N\<^sup>2 = 1/531441\<close>.
\<close>

theorem kernel_B_contract_broken:
  "loop2chunk ops 2 nat [0, 1, 0, 0, 0, 0, 0, 0, 0, 0, 0, 0, 0, 0, 1] 0 2 (s\<lparr>jmax := \<lambda>i. 2\<rparr>) =
     Some (s\<lparr>jmax := \<lambda>i. 2,
             c := (c s)(0 := fadd ops (c s 0)
               (fmul ops (fmul ops (rnd ops 1) (flog ops (b s (0, 1)))) (loop2_rN2 ops)))\<rparr>) \<and>
   (\<exists>s'. loop2chunk real_ops 2 nat [0, 1, 0, 0, 0, 0, 0, 0, 0, 0, 0, 0, 0, 0, 1] 0 2 test_state = Some s' \<and>
      c s' 1 = 0) \<and>
   (\<exists>s'. loop2chunk_seq real_ops 0 2 test_state = Some s' \<and> c s' 1 = 1 / 531441) \<and>
   kernel_B_row real_ops (loop2_rN2 real_ops) test_state 1 = 1 / 531441"
proof -
  have "\<exists>s'. loop2chunk real_ops 2 nat [0, 1, 0, 0, 0, 0, 0, 0, 0, 0, 0, 0, 0, 0, 1] 0 2 test_state = Some s' \<and>
      c s' 1 = 0"
    using loop2chunk_interleaved [of real_ops test_state]
    by (simp add: test_state_jmax) (simp add: test_state_def)
  moreover have "\<exists>s'. loop2chunk_seq real_ops 0 2 test_state = Some s' \<and> c s' 1 = 1 / 531441"
    using loop2chunk_in_turn_seq [of real_ops test_state, symmetric] loop2chunk_in_turn [of real_ops test_state]
    by (simp add: test_state_jmax) (simp add: test_state_def real_ops_def loop2_rN2_def N_def)
  moreover have "kernel_B_row real_ops (loop2_rN2 real_ops) test_state 1 = 1 / 531441"
    using kernel_B_row_two [of real_ops "loop2_rN2 real_ops" test_state 1]
    by (simp add: test_state_jmax) (simp add: test_state_def real_ops_def loop2_rN2_def N_def)
  ultimately show ?thesis
    using loop2chunk_interleaved [of ops s] by blast
qed

subsection \<open>The result depends on the schedule\<close>

lemma sum_two_rows:
  "(\<Sum>i\<in>{0..N - 1}. ((\<lambda>i. 0)(0 := x, 1 := y)) i) = x + y" for x y :: real
proof -
  have "(\<Sum>i\<in>{0..N - 1}. ((\<lambda>i. 0)(0 := x, 1 := y)) i) =
      (\<Sum>i\<in>{0..N - 1}. (if i = 0 then x else 0) + (if i = 1 then y else 0))"
    by (intro sum.cong) auto
  also have "\<dots> = x + y"
    by (simp add: sum.distrib N_def)
  finally show ?thesis .
qed

lemma sum_one_row:
  "(\<Sum>i\<in>{0..N - 1}. ((\<lambda>i. 0)(0 := x)) i) = x" for x :: real
proof -
  have "(\<Sum>i\<in>{0..N - 1}. ((\<lambda>i. 0)(0 := x)) i) = (\<Sum>i\<in>{0..N - 1}. (if i = 0 then x else 0))"
    by (intro sum.cong) auto
  also have "\<dots> = x"
    by (simp add: N_def)
  finally show ?thesis .
qed

text \<open>
  C4. The final arrays are not the same for every schedule. With two threads that run
  in turn, \<open>loop1chunk(726, 728)\<close> and \<open>loop2chunk(0, 2)\<close> return what the loop nests run
  by one thread return. With the same two threads and the same chunks under the
  interleavings above they return other arrays: from the arrays all zero, in exact
  arithmetic, \<open>a[727][728]\<close> is 0 and not 1; and with \<open>b\<close> equal to \<open>e\<close> everywhere, \<open>c\<close>
  zero and \<open>jmax[i] = 2\<close>, the checksum of \<open>c\<close> that \<open>valid2\<close> prints is \<open>1/531441\<close> and
  not \<open>2/531441\<close>.
\<close>

theorem schedule_changes_result:
  "loop1chunk ops 2 nat [0, 0, 0, 0, 0, 0, 0, 0, 1, 1, 1, 1, 1] 726 728 s = loop1chunk_seq ops 726 728 s \<and>
   (\<exists>s1 s2. loop1chunk real_ops 2 nat [0, 1, 0, 0, 0, 1, 0, 0, 0, 0] 726 728 zero_state = Some s1 \<and>
      loop1chunk_seq real_ops 726 728 zero_state = Some s2 \<and>
      a s1 (727, 728) = 0 \<and> a s2 (727, 728) = 1) \<and>
   loop2chunk ops 2 nat [0, 0, 0, 0, 0, 0, 0, 0, 0, 0, 0, 0, 0, 1, 1, 1, 1, 1, 1, 1, 1, 1, 1, 1, 1, 1] 0 2
     (s\<lparr>jmax := \<lambda>i. 2\<rparr>) = loop2chunk_seq ops 0 2 (s\<lparr>jmax := \<lambda>i. 2\<rparr>) \<and>
   (\<exists>s1 s2. loop2chunk real_ops 2 nat [0, 1, 0, 0, 0, 0, 0, 0, 0, 0, 0, 0, 0, 0, 1] 0 2 test_state = Some s1 \<and>
      loop2chunk_seq real_ops 0 2 test_state = Some s2 \<and>
      valid2 real_ops s1 = Some (1 / 531441) \<and> valid2 real_ops s2 = Some (2 / 531441))"
proof -
  have A: "\<exists>s1 s2. loop1chunk real_ops 2 nat [0, 1, 0, 0, 0, 1, 0, 0, 0, 0] 726 728 zero_state = Some s1 \<and>
      loop1chunk_seq real_ops 726 728 zero_state = Some s2 \<and>
      a s1 (727, 728) = 0 \<and> a s2 (727, 728) = 1"
    unfolding loop1chunk_in_turn_seq [symmetric] loop1chunk_in_turn loop1chunk_interleaved
    by (simp add: zero_state_def real_ops_def)
  have raced: "loop2chunk real_ops 2 nat [0, 1, 0, 0, 0, 0, 0, 0, 0, 0, 0, 0, 0, 0, 1] 0 2 test_state =
      Some (test_state\<lparr>c := (\<lambda>i. 0)(0 := 1 / 531441)\<rparr>)"
    using loop2chunk_interleaved [of real_ops test_state]
    by (simp add: test_state_jmax) (simp add: test_state_def real_ops_def loop2_rN2_def N_def)
  have seq: "loop2chunk_seq real_ops 0 2 test_state =
      Some (test_state\<lparr>c := (\<lambda>i. 0)(0 := 1 / 531441, 1 := 1 / 531441)\<rparr>)"
    using loop2chunk_in_turn_seq [of real_ops test_state, symmetric] loop2chunk_in_turn [of real_ops test_state]
    by (simp add: test_state_jmax) (simp add: test_state_def real_ops_def loop2_rN2_def N_def)
  have "valid2 real_ops (test_state\<lparr>c := (\<lambda>i. 0)(0 := 1 / 531441)\<rparr>) = Some (1 / 531441)"
    using sum_one_row [of "1 / 531441"] by (simp add: valid2_real)
  moreover have "valid2 real_ops (test_state\<lparr>c := (\<lambda>i. 0)(0 := 1 / 531441, 1 := 1 / 531441)\<rparr>) =
      Some (2 / 531441)"
    using sum_two_rows [of "1 / 531441" "1 / 531441"] by (simp add: valid2_real)
  ultimately have B: "\<exists>s1 s2.
      loop2chunk real_ops 2 nat [0, 1, 0, 0, 0, 0, 0, 0, 0, 0, 0, 0, 0, 0, 1] 0 2 test_state = Some s1 \<and>
      loop2chunk_seq real_ops 0 2 test_state = Some s2 \<and>
      valid2 real_ops s1 = Some (1 / 531441) \<and> valid2 real_ops s2 = Some (2 / 531441)"
    using raced seq by blast
  from A B loop1chunk_in_turn_seq [of ops s] loop2chunk_in_turn_seq [of ops s] show ?thesis
    by blast
qed

subsection \<open>The first kernel call of main\<close>





section \<open>Empty ranges\<close>

text \<open>
  C8. \<open>loop1chunk(0, 0)\<close> and \<open>loop2chunk(N, N)\<close> return, and the whole state (a, b, c
  and jmax) is the one before the call; their outer loops run no iteration, whatever the
  body of the loop is. This holds of the loop nests run by one thread and of the
  parallel loops with every number of threads, every assignment and every interleaving:
  no thread has an iteration.
\<close>

theorem empty_range_unchanged:
  "loop1chunk_seq ops 0 0 s = Some s \<and> loop2chunk_seq ops N N s = Some s \<and>
   for_up 0 0 row s = Some s \<and> for_up N N row s = Some s \<and>
   loop1chunk ops n asg sched 0 0 s = Some s \<and> loop2chunk ops n asg sched N N s = Some s"
  by (simp add: loop1chunk_seq_def loop2chunk_seq_def for_up.simps [of 0 0] for_up.simps [of N N]
      loop1chunk_empty loop2chunk_empty)

end
